theory Spec2Isabelle
  imports Complex_Main "HOL-Library.Multiset"
begin

section \<open>Segment merge engine (internal/pkg/api/api_helpers.go, processSegments)\<close>

text \<open>
  The Go struct \<^verbatim>\<open>Segment{Start, End, UUIDs}\<close> and the anonymous struct the raw JSON
  records are decoded into, \<^verbatim>\<open>{Segment []float64; UUID string; Locked int}\<close>.
  A float64 is modelled by the real number it denotes (JSON carries neither NaN nor an
  infinity). Comparisons and assignments of float64 values are exact; the one arithmetic
  operation of the code, the subtraction in the combining loop, rounds, and is modelled with
  its rounding below.
\<close>

record Segment =
  Start :: real
  End :: real
  UUIDs :: "string list"

record typedSegment =
  Segment :: "real list"
  UUID :: string
  Locked :: int

text \<open>
  \<^verbatim>\<open>sort.Slice(typedSegments, func(i, j) bool { return a[i].Segment[k] < a[j].Segment[k] })\<close>.
  The library promises only a sorted permutation (the sort is not stable). On slices of at
  most 12 elements Go sorts by insertion, which is the stable sort \<open>sort_key\<close>; on longer
  slices the order of records with equal keys is whatever the library's pattern-defeating
  quicksort leaves. \<open>sortByEnd\<close> and \<open>sortByStart\<close> are the sorts of the code on up to 12
  records; \<open>isSortSlice\<close> is what a sort by a key is known to do on any slice, and
  \<open>processSegmentsWith\<close> below takes the two sorts as arguments.
\<close>

definition isSortSlice ::
    "(typedSegment \<Rightarrow> real) \<Rightarrow> (typedSegment list \<Rightarrow> typedSegment list) \<Rightarrow> bool" where
  "isSortSlice key srt = (\<forall>xs. mset (srt xs) = mset xs \<and> sorted (map key (srt xs)))"

definition sortByEnd :: "typedSegment list \<Rightarrow> typedSegment list" where
  "sortByEnd ts = sort_key (\<lambda>s. Segment s ! 1) ts"

definition sortByStart :: "typedSegment list \<Rightarrow> typedSegment list" where
  "sortByStart ts = sort_key (\<lambda>s. Segment s ! 0) ts"

text \<open>Body of the inner loop of "Extend ends of overlapping segments", for indices i and j.\<close>

definition extendEndStep :: "nat \<Rightarrow> nat \<Rightarrow> typedSegment list \<Rightarrow> typedSegment list" where
  "extendEndStep i j ts =
     (if Segment (ts ! j) ! 0 \<le> Segment (ts ! i) ! 1 \<and> Segment (ts ! i) ! 1 \<le> Segment (ts ! j) ! 1
      then ts[i := (ts ! i)\<lparr>Segment := (Segment (ts ! i))[1 := Segment (ts ! j) ! 1]\<rparr>]
      else ts)"

text \<open>\<^verbatim>\<open>for i := range typedSegments { for j := range typedSegments { ... } }\<close>\<close>

definition extendEnds :: "typedSegment list \<Rightarrow> typedSegment list" where
  "extendEnds ts =
     fold (\<lambda>i. fold (extendEndStep i) [0..<length ts]) [0..<length ts] ts"

text \<open>Body of the inner loop of "Extend starts of overlapping segments".\<close>

definition extendStartStep :: "nat \<Rightarrow> nat \<Rightarrow> typedSegment list \<Rightarrow> typedSegment list" where
  "extendStartStep i j ts =
     (if Segment (ts ! j) ! 0 \<le> Segment (ts ! i) ! 0 \<and> Segment (ts ! i) ! 0 \<le> Segment (ts ! j) ! 1
      then ts[i := (ts ! i)\<lparr>Segment := (Segment (ts ! i))[0 := Segment (ts ! j) ! 0]\<rparr>]
      else ts)"

text \<open>\<^verbatim>\<open>for i := len-1; i >= 0; i-- { for j := len-1; j >= 0; j-- { ... } }\<close>\<close>

definition extendStarts :: "typedSegment list \<Rightarrow> typedSegment list" where
  "extendStarts ts =
     fold (\<lambda>i. fold (extendStartStep i) (rev [0..<length ts])) (rev [0..<length ts]) ts"

text \<open>
  The test \<^verbatim>\<open>segment.Start-last.End < 1\<close> is made on the float64 difference, which is the
  exact difference rounded to the nearest float64, ties to even. The float64 values next to
  1 from below are \<^verbatim>\<open>1 - 2^-53\<close> and 1; their midpoint \<^verbatim>\<open>1 - 2^-54\<close> is a tie and goes to 1,
  whose mantissa is even. Rounding is monotone, so the rounded difference is below 1 exactly
  when the exact difference is below \<^verbatim>\<open>1 - 2^-54\<close>.
\<close>

definition gapMin :: real where
  "gapMin = 1 - 1 / 2 ^ 54"

definition float64_diff_below_one :: "real \<Rightarrow> real \<Rightarrow> bool" where
  "float64_diff_below_one a b = (a - b < gapMin)"

text \<open>
  One iteration of the loop "Combine close segments": the state is the pair
  (segments, ignoreTTL). When the new segment starts less than one second (in float64)
  after the end of the last one, it takes over that one's start, appends that one's ids
  after its own id and replaces it.
\<close>

definition combineStep :: "typedSegment \<Rightarrow> Segment list \<times> bool \<Rightarrow> Segment list \<times> bool" where
  "combineStep s st =
     (let segments = fst st;
          ignoreTTL = (snd st \<and> Locked s = 1);
          segment = \<lparr>Start = Segment s ! 0, End = Segment s ! 1, UUIDs = [UUID s]\<rparr>
      in if segments \<noteq> [] \<and> float64_diff_below_one (Start segment) (End (last segments))
         then (butlast segments @
                 [segment\<lparr>Start := Start (last segments),
                          UUIDs := UUIDs segment @ UUIDs (last segments)\<rparr>], ignoreTTL)
         else (segments @ [segment], ignoreTTL))"

definition combine :: "typedSegment list \<Rightarrow> Segment list \<times> bool" where
  "combine ts = fold combineStep ts ([], True)"

text \<open>
  processSegments. The argument is \<^verbatim>\<open>data["segments"]\<close> after the type assertion and the
  per-record decoding: \<open>None\<close> when the key is missing or is not a list (the early return),
  \<open>Some ts\<close> otherwise. The result is \<open>None\<close> when the Go code panics with an index out of
  range: the loops read \<^verbatim>\<open>Segment[0]\<close> and \<^verbatim>\<open>Segment[1]\<close> of every record as soon as there is
  one record, so this happens exactly when some record has fewer than two coordinates.
  The error component of the Go result is always nil and is left out.
\<close>

definition processSegments :: "typedSegment list option \<Rightarrow> (Segment list \<times> bool) option" where
  "processSegments rawSegments =
     (case rawSegments of
        None \<Rightarrow> Some ([], True)
      | Some ts \<Rightarrow>
          if \<exists>s \<in> set ts. length (Segment s) < 2 then None
          else Some (combine (extendStarts (sortByStart (extendEnds (sortByEnd ts))))))"

text \<open>
  The same function with the two calls of \<^verbatim>\<open>sort.Slice\<close> as arguments, for slices of any
  length; \<open>processSegments\<close> is \<open>processSegmentsWith sortByEnd sortByStart\<close>.
\<close>

definition processSegmentsWith ::
    "(typedSegment list \<Rightarrow> typedSegment list) \<Rightarrow> (typedSegment list \<Rightarrow> typedSegment list) \<Rightarrow>
     typedSegment list option \<Rightarrow> (Segment list \<times> bool) option" where
  "processSegmentsWith sortEnd sortStart rawSegments =
     (case rawSegments of
        None \<Rightarrow> Some ([], True)
      | Some ts \<Rightarrow>
          if \<exists>s \<in> set ts. length (Segment s) < 2 then None
          else Some (combine (extendStarts (sortStart (extendEnds (sortEnd ts))))))"

text \<open>
  The tail of GetSegments: \<^verbatim>\<open>if segmentsData == nil { return []Segment{}, true, nil }\<close>,
  otherwise processSegments on the matching item. \<open>None\<close> is "no item of the response
  matches the video id"; \<open>Some d\<close> carries that item's "segments" field.
\<close>

definition GetSegments_tail :: "typedSegment list option option \<Rightarrow> (Segment list \<times> bool) option" where
  "GetSegments_tail segmentsData =
     (case segmentsData of None \<Rightarrow> Some ([], True) | Some d \<Rightarrow> processSegments d)"

subsection \<open>Predicates used to state the properties of the merge\<close>

text \<open>
  A raw record is well formed when it has its two coordinates and they form an interval.
\<close>

definition wfRecord :: "typedSegment \<Rightarrow> bool" where
  "wfRecord s = (2 \<le> length (Segment s) \<and> Segment s ! 0 \<le> Segment s ! 1)"

text \<open>
  What the end-extension pass may do to a record (\<open>endsGrow\<close>) and what the
  start-extension pass may do to it (\<open>startsShrink\<close>).
\<close>

definition endsGrow :: "typedSegment \<Rightarrow> typedSegment \<Rightarrow> bool" where
  "endsGrow r0 r =
     (length (Segment r) = length (Segment r0) \<and> Segment r ! 0 = Segment r0 ! 0 \<and>
      Segment r0 ! 1 \<le> Segment r ! 1 \<and> UUID r = UUID r0 \<and> Locked r = Locked r0)"

definition startsShrink :: "typedSegment \<Rightarrow> typedSegment \<Rightarrow> bool" where
  "startsShrink r0 r =
     (length (Segment r) = length (Segment r0) \<and> Segment r ! 1 = Segment r0 ! 1 \<and>
      Segment r ! 0 \<le> Segment r0 ! 0 \<and> UUID r = UUID r0 \<and> Locked r = Locked r0)"

text \<open>
  An output list in canonical form: every segment ends at least \<open>gapMin\<close> before each later
  one starts, and every segment is an interval with at least one id.
\<close>

definition gapOrdered :: "Segment list \<Rightarrow> bool" where
  "gapOrdered segs =
     (sorted_wrt (\<lambda>a b. End a + gapMin \<le> Start b) segs \<and>
      (\<forall>g \<in> set segs. Start g \<le> End g \<and> UUIDs g \<noteq> []))"

text \<open>
  Feeding an output back into processSegments. The function takes raw records with one id
  each, so an output segment is written as one record per id, in the order in which the
  segment stores its ids, with the segment's bounds, and locked exactly when the output was
  permanent.
\<close>

definition asRecords :: "bool \<Rightarrow> Segment \<Rightarrow> string list \<Rightarrow> typedSegment list" where
  "asRecords perm g us =
     map (\<lambda>u. \<lparr>Segment = [Start g, End g], UUID = u, Locked = (if perm then 1 else 0)\<rparr>) us"

definition reencode :: "bool \<Rightarrow> Segment list \<Rightarrow> typedSegment list" where
  "reencode perm segs = concat (map (\<lambda>g. asRecords perm g (UUIDs g)) segs)"

section \<open>Skip scheduler (cmd/iSponsorBlockTV/main.go)\<close>

text \<open>
  The loop of timeToSegment: the first segment, in list order, that is either "within the
  start range" or "beyond the current position", together with startNextSegment.
\<close>

fun nextSegment :: "Segment list \<Rightarrow> real \<Rightarrow> (Segment \<times> real) option" where
  "nextSegment [] position = None"
| "nextSegment (segment # rest) position =
     (let isWithinStartRange =
            (position < 1 \<and> End segment > 1 \<and> Start segment \<le> position \<and> position < End segment);
          isBeyondCurrentPosition = (Start segment > position)
      in if isWithinStartRange \<or> isBeyondCurrentPosition
         then Some (segment, if isWithinStartRange then position else Start segment)
         else nextSegment rest position)"

text \<open>
  What a goroutine of the listener does, in order. \<open>LoungeCommand\<close> stands for any command
  sent to the device through the lounge controller (\<^verbatim>\<open>SendCommand\<close>); \<open>GoMarkViewedSegments\<close>
  is the goroutine that reports the ids, \<open>WaitGroupWait\<close> blocks until that goroutine is done.
\<close>

datatype effect =
    Sleep real
  | LogSkipping real
  | GoMarkViewedSegments "string list"
  | WaitGroupWait
  | LoungeCommand string

text \<open>skip(timeTo, position, uuids), statement by statement.\<close>

definition skip :: "real \<Rightarrow> real \<Rightarrow> string list \<Rightarrow> effect list" where
  "skip timeTo position uuids =
     [Sleep timeTo, LogSkipping position, GoMarkViewedSegments uuids, WaitGroupWait]"

text \<open>
  timeToSegment; \<open>offset\<close> is \<^verbatim>\<open>d.device.Offset\<close> and \<open>elapsed\<close> is
  \<^verbatim>\<open>time.Since(startTime).Seconds()\<close>.
\<close>

definition timeToSegment :: "real \<Rightarrow> Segment list \<Rightarrow> real \<Rightarrow> real \<Rightarrow> effect list" where
  "timeToSegment offset segments position elapsed =
     (case nextSegment segments position of
        None \<Rightarrow> []
      | Some (next, startNextSegment) \<Rightarrow>
          skip ((startNextSegment - position - elapsed) - offset) (End next) (UUIDs next))"

datatype PlaybackStateType = StateUnknown | StatePlaying | StatePaused | StateBuffering

record PlaybackState =
  VideoID :: string
  CurrentTime :: real
  State :: PlaybackStateType

text \<open>
  processPlaybackState; \<open>getSegments\<close> is the segment provider (\<^verbatim>\<open>apiHelper.GetSegments\<close>, whose
  error is only logged) and \<open>elapsed\<close> the time the goroutine has been running when it
  computes the delay.
\<close>

definition processPlaybackState ::
    "real \<Rightarrow> (string \<Rightarrow> Segment list) \<Rightarrow> real \<Rightarrow> PlaybackState \<Rightarrow> effect list" where
  "processPlaybackState offset getSegments elapsed state =
     (let segments = (if VideoID state \<noteq> [] then getSegments (VideoID state) else [])
      in if State state = StatePlaying \<and> segments \<noteq> []
         then timeToSegment offset segments (CurrentTime state) elapsed
         else [])"

text \<open>
  The part of DeviceListener that scheduling touches. \<open>task\<close> is the context of the current
  Task (contexts are numbered as they are created), \<open>cancelledTasks\<close> the contexts whose
  cancel function has been called, and \<open>goroutines\<close> the calls
  \<^verbatim>\<open>go d.processPlaybackState(state, time.Now())\<close> made so far, with their arguments: the
  goroutine is handed the state and the time, not the context.
\<close>

record DeviceListener =
  task :: "nat option"
  cancelledTasks :: "nat list"
  createdTasks :: nat
  goroutines :: "(PlaybackState \<times> real) list"

definition HandlePlaybackStateChange :: "PlaybackState \<Rightarrow> real \<Rightarrow> DeviceListener \<Rightarrow> DeviceListener" where
  "HandlePlaybackStateChange state now d =
     (let d1 = (case task d of
                  Some c \<Rightarrow> d\<lparr>cancelledTasks := c # cancelledTasks d\<rparr>
                | None \<Rightarrow> d)
      in d1\<lparr>task := Some (createdTasks d1),
             createdTasks := Suc (createdTasks d1),
             goroutines := goroutines d1 @ [(state, now)]\<rparr>)"

text \<open>
  What the goroutines started so far go on to do: each runs processPlaybackState to its
  end, whatever has happened to the task and its context since (nothing in
  processPlaybackState, timeToSegment or skip reads them). \<open>elapsed\<close> is the time a goroutine
  has been running when it computes its delay. The skips to come are the non-empty ones.
\<close>

definition pendingSkips ::
    "real \<Rightarrow> (string \<Rightarrow> Segment list) \<Rightarrow> real \<Rightarrow> DeviceListener \<Rightarrow> effect list list" where
  "pendingSkips offset getSegments elapsed d =
     filter (\<lambda>es. es \<noteq> [])
       (map (\<lambda>(state, startTime). processPlaybackState offset getSegments elapsed state)
          (goroutines d))"

subsection \<open>The selection rule of the specification\<close>

text \<open>
  The rule as the specification words it: a segment spans the opening window when it has
  started at the sample position and ends after the first second.
\<close>

definition spansOpening :: "real \<Rightarrow> Segment \<Rightarrow> bool" where
  "spansOpening position s = (Start s \<le> position \<and> 1 < End s)"

definition selectionRule :: "Segment list \<Rightarrow> real \<Rightarrow> (Segment \<times> real) option" where
  "selectionRule segments position =
     (if position < 1 \<and> list_ex (spansOpening position) segments
      then map_option (\<lambda>s. (s, position)) (find (spansOpening position) segments)
      else map_option (\<lambda>s. (s, Start s)) (find (\<lambda>s. position < Start s) segments))"

section \<open>Cache (internal/pkg/api/cache.go)\<close>

text \<open>
  Times and durations are integers (nanoseconds). The Go map is an association list with
  distinct keys whose order stands for the order in which \<^verbatim>\<open>range\<close> visits the map, which
  Go leaves unspecified; the properties below hold for every order. Each operation reads the
  clock once (\<open>now\<close>).
\<close>

record 'v cacheEntry =
  val :: 'v
  expiration :: int

record 'v Cache =
  entries :: "(string \<times> 'v cacheEntry) list"
  ttl :: int
  maxSize :: int

definition NewCache :: "int \<Rightarrow> int \<Rightarrow> 'v Cache" where
  "NewCache n t = \<lparr>entries = [], ttl = t, maxSize = n\<rparr>"

definition delete_key :: "string \<Rightarrow> (string \<times> 'a) list \<Rightarrow> (string \<times> 'a) list" where
  "delete_key k es = filter (\<lambda>(k', _). k' \<noteq> k) es"

text \<open>
  \<^verbatim>\<open>c.entries[key] = entry\<close>: an existing key keeps its place, a new key goes to the end.
\<close>

fun store :: "string \<Rightarrow> 'a \<Rightarrow> (string \<times> 'a) list \<Rightarrow> (string \<times> 'a) list" where
  "store k v [] = [(k, v)]"
| "store k v ((k', v') # es) = (if k' = k then (k, v) # es else (k', v') # store k v es)"

text \<open>Get: a miss, an expired entry (deleted, reported as a miss) or a hit.\<close>

definition Get :: "'v Cache \<Rightarrow> string \<Rightarrow> int \<Rightarrow> 'v Cache \<times> 'v option" where
  "Get c key now =
     (case map_of (entries c) key of
        None \<Rightarrow> (c, None)
      | Some entry \<Rightarrow>
          if now > expiration entry then (c\<lparr>entries := delete_key key (entries c)\<rparr>, None)
          else (c, Some (val entry)))"

text \<open>
  The search for the oldest entry in Set. The state is (oldestKey, oldestTime); the zero
  time the Go variable starts with is \<open>None\<close>.
\<close>

definition oldestStep :: "string \<times> 'v cacheEntry \<Rightarrow> string \<times> int option \<Rightarrow> string \<times> int option" where
  "oldestStep ke st =
     (case snd st of
        None \<Rightarrow> (fst ke, Some (expiration (snd ke)))
      | Some oldestTime \<Rightarrow>
          if expiration (snd ke) < oldestTime then (fst ke, Some (expiration (snd ke))) else st)"

definition oldestKey :: "(string \<times> 'v cacheEntry) list \<Rightarrow> string" where
  "oldestKey es = fst (fold oldestStep es ([], None))"

text \<open>
  Set: remove the expired entries; if the cache is full remove the entry with the oldest
  expiration; store the new entry, expiring \<open>ttl\<close> from now.
\<close>

definition liveEntries :: "'v Cache \<Rightarrow> int \<Rightarrow> (string \<times> 'v cacheEntry) list" where
  "liveEntries c now = filter (\<lambda>(k, entry). \<not> now > expiration entry) (entries c)"

definition Set :: "'v Cache \<Rightarrow> string \<Rightarrow> 'v \<Rightarrow> int \<Rightarrow> 'v Cache" where
  "Set c key v now =
     (let live = liveEntries c now;
          kept = (if int (length live) \<ge> maxSize c then delete_key (oldestKey live) live else live)
      in c\<lparr>entries := store key \<lparr>val = v, expiration = now + ttl c\<rparr> kept\<rparr>)"

definition Delete :: "'v Cache \<Rightarrow> string \<Rightarrow> 'v Cache" where
  "Delete c key = c\<lparr>entries := delete_key key (entries c)\<rparr>"

definition Clear :: "'v Cache \<Rightarrow> 'v Cache" where
  "Clear c = c\<lparr>entries := []\<rparr>"

section \<open>Lounge session (package ytlounge, YtLoungeApi) and the listener's event handler\<close>

text \<open>
  Event payloads are \<^verbatim>\<open>[]interface{}\<close> holding decoded JSON: the dynamic types are nil,
  bool, float64, string, \<^verbatim>\<open>[]interface{}\<close> and \<^verbatim>\<open>map[string]interface{}\<close>.
\<close>

datatype jvalue =
    JNull
  | JBool bool
  | JNumber real
  | JString string
  | JArray "jvalue list"
  | JObject "(string \<times> jvalue) list"

text \<open>\<^verbatim>\<open>data[k]\<close> on a Go map: the zero value (nil) when the key is missing.\<close>

definition lookup :: "(string \<times> jvalue) list \<Rightarrow> string \<Rightarrow> jvalue" where
  "lookup data k = (case map_of data k of None \<Rightarrow> JNull | Some v \<Rightarrow> v)"

text \<open>The runtime panics the handlers can raise; none of them is recovered anywhere.\<close>

datatype panic = IndexOutOfRange | TypeAssertionFailed | NilFuncCall

text \<open>The goroutines an event starts (\<^verbatim>\<open>go y.Mute(...)\<close> and so on) and the callback call.\<close>

datatype action =
    GoMute bool bool
  | GoSkipAd
  | GoGetSegments string
  | GoPlayVideo string
  | GoSetAutoPlayMode bool
  | GoGetNowPlaying
  | Callback string "jvalue list"

text \<open>
  Library calls and constants the handlers use: \<^verbatim>\<open>json.Unmarshal\<close> into
  \<^verbatim>\<open>[]map[string]interface{}\<close> and into \<^verbatim>\<open>map[string]interface{}\<close> (\<open>None\<close> is an error),
  \<^verbatim>\<open>strconv.ParseFloat\<close>, and \<^verbatim>\<open>constants.YouTubeClientBlacklist\<close>.
\<close>

record env =
  decodeDevices :: "string \<Rightarrow> (string \<times> jvalue) list list option"
  decodeInfo :: "string \<Rightarrow> (string \<times> jvalue) list option"
  parseFloat :: "string \<Rightarrow> real option"
  YouTubeClientBlacklist :: "string list"

text \<open>
  The fields of YtLoungeApi the handlers touch, and below them the goroutines and contexts
  it has created. A context is a number; its cancel function adds it to \<open>cancelled\<close>.
  \<open>subscribeTask\<close> and \<open>watchdogTask\<close> hold a cancel function or nil. \<open>subscriptions\<close> lists
  the contexts handed to \<^verbatim>\<open>go y.subscribe(subCtx)\<close>, one per subscription attempt, and
  \<open>watchdogs\<close> the running watchdog goroutines, each with its context and the seconds since
  its ticker last fired.
\<close>

record YtLoungeApi =
  volumeState :: "(string \<times> jvalue) list"
  playbackSpeed :: real
  subscribeTask :: "nat option"
  watchdogTask :: "nat option"
  callback :: bool
  shortsDisconnected :: bool
  autoPlay :: bool
  muteAds :: bool
  skipAds :: bool
  cancelled :: "nat list"
  created :: nat
  subscriptions :: "nat list"
  watchdogs :: "(nat \<times> nat) list"

definition NewYtLoungeApi :: YtLoungeApi where
  "NewYtLoungeApi =
     \<lparr>volumeState = [], playbackSpeed = 1, subscribeTask = None, watchdogTask = None,
      callback = False, shortsDisconnected = False, autoPlay = False, muteAds = False,
      skipAds = False, cancelled = [], created = 0, subscriptions = [], watchdogs = []\<rparr>"

definition cancel :: "nat \<Rightarrow> YtLoungeApi \<Rightarrow> YtLoungeApi" where
  "cancel c y = y\<lparr>cancelled := c # cancelled y\<rparr>"

definition cancelIfSet :: "nat option \<Rightarrow> YtLoungeApi \<Rightarrow> YtLoungeApi" where
  "cancelIfSet t y = (case t of None \<Rightarrow> y | Some c \<Rightarrow> cancel c y)"

text \<open>
  SubscribeMonitored: set the callback, cancel the existing tasks, start a subscription on a
  new context and a watchdog on another new context.
\<close>

definition SubscribeMonitored :: "YtLoungeApi \<Rightarrow> YtLoungeApi" where
  "SubscribeMonitored y =
     (let y1 = cancelIfSet (watchdogTask y) (y\<lparr>callback := True\<rparr>);
          y2 = cancelIfSet (subscribeTask y1) y1;
          subCtx = created y2;
          watchCtx = Suc (created y2)
      in y2\<lparr>subscribeTask := Some subCtx,
             subscriptions := subscriptions y2 @ [subCtx],
             watchdogTask := Some watchCtx,
             watchdogs := watchdogs y2 @ [(watchCtx, 0)],
             created := Suc (Suc (created y2))\<rparr>)"

text \<open>
  One second in the life of one watchdog goroutine: it returns when its context is done;
  when its 35 second ticker fires it cancels the subscription, if there is one, and sets
  \<open>subscribeTask\<close> to nil; otherwise it keeps waiting. The result is the new state and the
  goroutine if it is still running.
\<close>

definition watchdog :: "nat \<times> nat \<Rightarrow> YtLoungeApi \<Rightarrow> YtLoungeApi \<times> (nat \<times> nat) list" where
  "watchdog g y =
     (if fst g \<in> set (cancelled y) then (y, [])
      else if Suc (snd g) < 35 then (y, [(fst g, Suc (snd g))])
      else (case subscribeTask y of
              Some c \<Rightarrow> ((cancel c y)\<lparr>subscribeTask := None\<rparr>, [(fst g, 0)])
            | None \<Rightarrow> (y, [(fst g, 0)])))"

text \<open>One second without an inbound event: every watchdog goroutine takes its step.\<close>

definition second :: "YtLoungeApi \<Rightarrow> YtLoungeApi" where
  "second y =
     (let r = fold (\<lambda>g (st, gs). (fst (watchdog g st), gs @ snd (watchdog g st)))
                (watchdogs y) (y, [])
      in (fst r)\<lparr>watchdogs := snd r\<rparr>)"

subsection \<open>ProcessEvent\<close>

text \<open>
  The outcome of the switch: a panic, or the new state, the goroutines started and whether
  the case returned from ProcessEvent (which skips the callback).
\<close>

type_synonym outcome = "panic + (YtLoungeApi \<times> action list \<times> bool)"

text \<open>\<^verbatim>\<open>if data, ok := args[0].(map[string]interface{}); ok { ... }\<close>, without a length check.\<close>

definition firstObject ::
    "jvalue list \<Rightarrow> YtLoungeApi \<Rightarrow> ((string \<times> jvalue) list \<Rightarrow> outcome) \<Rightarrow> outcome" where
  "firstObject args y body =
     (case args of
        [] \<Rightarrow> Inl IndexOutOfRange
      | JObject data # _ \<Rightarrow> body data
      | _ # _ \<Rightarrow> Inr (y, [], False))"

text \<open>The same inside \<^verbatim>\<open>if len(args) > 0 { ... }\<close>.\<close>

definition checkedFirstObject ::
    "jvalue list \<Rightarrow> YtLoungeApi \<Rightarrow> ((string \<times> jvalue) list \<Rightarrow> outcome) \<Rightarrow> outcome" where
  "checkedFirstObject args y body =
     (case args of
        [] \<Rightarrow> Inr (y, [], False)
      | JObject data # _ \<Rightarrow> body data
      | _ # _ \<Rightarrow> Inr (y, [], False))"

text \<open>The actions on an ad that has started: skip it if allowed, else mute it.\<close>

definition adStarted :: "YtLoungeApi \<Rightarrow> (string \<times> jvalue) list \<Rightarrow> action list" where
  "adStarted y data =
     (if skipAds y \<and> lookup data ''isSkipEnabled'' = JString ''true''
      then [GoSkipAd, GoMute False True]
      else if muteAds y then [GoMute True True] else [])"

text \<open>
  The test on one entry of the decoded device list in the "loungeStatus" case: a lounge
  screen whose device info decodes and names a client on the blacklist.
\<close>

definition blacklistedDevice :: "env \<Rightarrow> (string \<times> jvalue) list \<Rightarrow> bool" where
  "blacklistedDevice e device =
     (lookup device ''type'' = JString ''LOUNGE_SCREEN'' \<and>
      (case lookup device ''deviceInfo'' of
         JString deviceInfo \<Rightarrow>
           (case decodeInfo e deviceInfo of
              Some info \<Rightarrow>
                (case lookup info ''clientName'' of
                   JString clientName \<Rightarrow> clientName \<in> set (YouTubeClientBlacklist e)
                 | _ \<Rightarrow> False)
            | None \<Rightarrow> False)
       | _ \<Rightarrow> False))"

definition loungeStatus :: "env \<Rightarrow> YtLoungeApi \<Rightarrow> (string \<times> jvalue) list \<Rightarrow> outcome" where
  "loungeStatus e y data =
     (case lookup data ''devices'' of
        JString devices \<Rightarrow>
          (case decodeDevices e devices of
             Some devicesData \<Rightarrow>
               if list_ex (blacklistedDevice e) devicesData
               then (case subscribeTask y of
                       None \<Rightarrow> Inl NilFuncCall
                     | Some c \<Rightarrow> Inr (cancel c y, [], True))
               else Inr (y, [], False)
           | None \<Rightarrow> Inr (y, [], False))
      | _ \<Rightarrow> Inr (y, [], False))"

definition switch :: "env \<Rightarrow> string \<Rightarrow> jvalue list \<Rightarrow> YtLoungeApi \<Rightarrow> outcome" where
  "switch e eventType args y =
     (if eventType = ''onStateChange'' then
        firstObject args y (\<lambda>data.
          Inr (y, if muteAds y \<and> lookup data ''state'' = JString ''1''
                  then [GoMute False True] else [], False))
      else if eventType = ''nowPlaying'' then
        firstObject args y (\<lambda>data.
          Inr (y, if muteAds y \<and> lookup data ''state'' = JString ''1''
                  then [GoMute False True] else [], False))
      else if eventType = ''onAdStateChange'' then
        firstObject args y (\<lambda>data.
          Inr (y, if lookup data ''adState'' = JString ''0'' then [GoMute False True]
                  else adStarted y data, False))
      else if eventType = ''onVolumeChanged'' then
        (case args of
           [] \<Rightarrow> Inr (y, [], False)
         | JObject data # _ \<Rightarrow> Inr (y\<lparr>volumeState := data\<rparr>, [], False)
         | _ # _ \<Rightarrow> Inl TypeAssertionFailed)
      else if eventType = ''autoplayUpNext'' then
        checkedFirstObject args y (\<lambda>data.
          Inr (y, case lookup data ''videoId'' of
                    JString videoID \<Rightarrow> if videoID \<noteq> [] then [GoGetSegments videoID] else []
                  | _ \<Rightarrow> [], False))
      else if eventType = ''adPlaying'' then
        firstObject args y (\<lambda>data.
          Inr (y, (case lookup data ''contentVideoId'' of
                     JString videoID \<Rightarrow> if videoID \<noteq> [] then [GoGetSegments videoID] else []
                   | _ \<Rightarrow> []) @ adStarted y data, False))
      else if eventType = ''loungeStatus'' then
        firstObject args y (loungeStatus e y)
      else if eventType = ''onSubtitlesTrackChanged'' then
        (if shortsDisconnected y then
           firstObject args y (\<lambda>data.
             case lookup data ''videoId'' of
               JString videoID \<Rightarrow> Inr (y\<lparr>shortsDisconnected := False\<rparr>, [GoPlayVideo videoID], False)
             | _ \<Rightarrow> Inr (y, [], False))
         else Inr (y, [], False))
      else if eventType = ''loungeScreenDisconnected'' then
        checkedFirstObject args y (\<lambda>data.
          Inr (if lookup data ''reason'' = JString ''disconnectedByUserScreenInitiated''
               then y\<lparr>shortsDisconnected := True\<rparr> else y, [], False))
      else if eventType = ''onAutoplayModeChanged'' then
        Inr (y, [GoSetAutoPlayMode (autoPlay y)], False)
      else if eventType = ''onPlaybackSpeedChanged'' then
        firstObject args y (\<lambda>data.
          Inr (case lookup data ''playbackSpeed'' of
                 JString speed \<Rightarrow>
                   (case parseFloat e speed of
                      Some parsedSpeed \<Rightarrow> y\<lparr>playbackSpeed := parsedSpeed\<rparr>
                    | None \<Rightarrow> y)
               | _ \<Rightarrow> y, [GoGetNowPlaying], False))
      else Inr (y, [], False))"

text \<open>
  ProcessEvent: "Restart watchdog" (the call of \<^verbatim>\<open>y.watchdogTask()\<close>, which is the cancel
  function of the watchdog's context), the switch, and the callback unless the switch
  returned.
\<close>

definition ProcessEvent :: "env \<Rightarrow> string \<Rightarrow> jvalue list \<Rightarrow> YtLoungeApi \<Rightarrow> panic + (YtLoungeApi \<times> action list)" where
  "ProcessEvent e eventType args y =
     (case switch e eventType args (cancelIfSet (watchdogTask y) y) of
        Inl p \<Rightarrow> Inl p
      | Inr (y', acts, returned) \<Rightarrow>
          Inr (y', if \<not> returned \<and> callback y' then acts @ [Callback eventType args] else acts))"

subsection \<open>The listener's callback (main.go, handleEvent)\<close>

text \<open>
  handleEvent: on "onStateChange" it reads \<^verbatim>\<open>args[0]\<close>, asserts \<^verbatim>\<open>data["videoId"].(string)\<close>
  without the comma-ok form, and hands the playback state to HandlePlaybackStateChange.
\<close>

definition handleEvent :: "string \<Rightarrow> jvalue list \<Rightarrow> real \<Rightarrow> DeviceListener \<Rightarrow> panic + DeviceListener" where
  "handleEvent eventType args now d =
     (if eventType = ''onStateChange'' then
        (case args of
           [] \<Rightarrow> Inl IndexOutOfRange
         | JObject data # _ \<Rightarrow>
             (case lookup data ''videoId'' of
                JString videoId \<Rightarrow>
                  Inr (HandlePlaybackStateChange
                         \<lparr>VideoID = videoId,
                          CurrentTime = (case lookup data ''currentTime'' of
                                           JNumber currentTime \<Rightarrow> currentTime | _ \<Rightarrow> 0),
                          State = StatePlaying\<rparr> now d)
              | _ \<Rightarrow> Inl TypeAssertionFailed)
         | _ # _ \<Rightarrow> Inr d)
      else Inr d)"

section \<open>LRU cache (package cache, the second file of internal/pkg/styles/styles.go)\<close>

text \<open>
  Package cache declares the names of package api's cache again (Cache, NewCache, Get, Set,
  Delete, Clear), so here they carry the package name as a prefix. A stored value is an
  \<^verbatim>\<open>interface{}\<close>, modelled by \<^typ>\<open>jvalue\<close>; the only thing the code asks of it is
  whether its dynamic type is string. The expiration is a pointer: \<open>None\<close> is nil.

  The cache shares list elements between the map \<^verbatim>\<open>items\<close> and the list \<^verbatim>\<open>lruList\<close>, and
  Set writes through the pointer (\<^verbatim>\<open>element.Value = entry\<close>). An element is therefore an
  address (the number of elements created before it), \<open>cache_elements\<close> holds the
  \<^verbatim>\<open>Value\<close> of every element created so far, \<open>cache_lruList\<close> holds the addresses of the
  elements now in the list, front first, and \<open>cache_items\<close> maps keys to addresses. The
  addresses in the map and in the list are always below the number of elements created.
\<close>

record cache_CacheEntry =
  cache_value :: jvalue
  cache_expiration :: "int option"

record cache_Cache =
  cache_capacity :: int
  cache_ttl :: int
  cache_items :: "(string \<times> nat) list"
  cache_lruList :: "nat list"
  cache_elements :: "cache_CacheEntry list"

definition cache_NewCache :: "int \<Rightarrow> int \<Rightarrow> cache_Cache" where
  "cache_NewCache capacity t =
     \<lparr>cache_capacity = capacity, cache_ttl = t, cache_items = [], cache_lruList = [],
      cache_elements = []\<rparr>"

text \<open>
  The operations of container/list the cache calls. MoveToFront and Remove do nothing to
  an element that is not in the list (\<^verbatim>\<open>e.list != l\<close>).
\<close>

definition list_MoveToFront :: "nat \<Rightarrow> nat list \<Rightarrow> nat list" where
  "list_MoveToFront e l = (if e \<in> set l then e # removeAll e l else l)"

definition list_Remove :: "nat \<Rightarrow> nat list \<Rightarrow> nat list" where
  "list_Remove e l = removeAll e l"

definition cache_Delete :: "cache_Cache \<Rightarrow> string \<Rightarrow> cache_Cache" where
  "cache_Delete c key =
     (case map_of (cache_items c) key of
        Some element \<Rightarrow>
          c\<lparr>cache_lruList := list_Remove element (cache_lruList c),
            cache_items := delete_key key (cache_items c)\<rparr>
      | None \<Rightarrow> c)"

text \<open>Get: a miss, an expired entry (deleted, reported as a miss) or a hit, which moves
  the element to the front of the list.\<close>

definition cache_Get :: "cache_Cache \<Rightarrow> string \<Rightarrow> int \<Rightarrow> cache_Cache \<times> jvalue option" where
  "cache_Get c key now =
     (case map_of (cache_items c) key of
        Some element \<Rightarrow>
          (let entry = cache_elements c ! element in
           if (case cache_expiration entry of Some t \<Rightarrow> now > t | None \<Rightarrow> False)
           then (cache_Delete c key, None)
           else (c\<lparr>cache_lruList := list_MoveToFront element (cache_lruList c)\<rparr>,
                 Some (cache_value entry)))
      | None \<Rightarrow> (c, None))"

text \<open>
  evict: the element at the back leaves the list; the key deleted from the map is that
  entry's \<^emph>\<open>value\<close>, asserted to be a string
  (\<^verbatim>\<open>key := element.Value.(*CacheEntry).value.(string)\<close>). The assertion panics on any
  other value.
\<close>

definition cache_evict :: "cache_Cache \<Rightarrow> panic + cache_Cache" where
  "cache_evict c =
     (if cache_lruList c = [] then Inr c
      else
        (let element = last (cache_lruList c) in
         case cache_value (cache_elements c ! element) of
           JString key \<Rightarrow>
             Inr (c\<lparr>cache_lruList := list_Remove element (cache_lruList c),
                    cache_items := delete_key key (cache_items c)\<rparr>)
         | _ \<Rightarrow> Inl TypeAssertionFailed))"

text \<open>
  Set: an existing key gets the new entry written into its element, which moves to the
  front; a new key gets a new element pushed at the front, and then the cache evicts if
  the list is longer than a positive capacity.
\<close>

definition cache_Set :: "cache_Cache \<Rightarrow> string \<Rightarrow> jvalue \<Rightarrow> bool \<Rightarrow> int \<Rightarrow> panic + cache_Cache" where
  "cache_Set c key v ignoreTTL now =
     (let expiration = (if \<not> ignoreTTL \<and> cache_ttl c > 0 then Some (now + cache_ttl c) else None);
          entry = \<lparr>cache_value = v, cache_expiration = expiration\<rparr>
      in case map_of (cache_items c) key of
           Some element \<Rightarrow>
             Inr (c\<lparr>cache_elements := (cache_elements c)[element := entry],
                    cache_lruList := list_MoveToFront element (cache_lruList c)\<rparr>)
         | None \<Rightarrow>
             (let element = length (cache_elements c);
                  c' = c\<lparr>cache_elements := cache_elements c @ [entry],
                         cache_lruList := element # cache_lruList c,
                         cache_items := store key element (cache_items c)\<rparr>
              in if cache_capacity c > 0 \<and> int (length (cache_lruList c')) > cache_capacity c
                 then cache_evict c' else Inr c'))"

definition cache_Clear :: "cache_Cache \<Rightarrow> cache_Cache" where
  "cache_Clear c = c\<lparr>cache_items := [], cache_lruList := []\<rparr>"

definition cache_Len :: "cache_Cache \<Rightarrow> nat" where
  "cache_Len c = length (cache_lruList c)"

section \<open>Properties of the merge engine\<close>

subsection \<open>The passes keep ids and locks\<close>

lemma fold_preserve:
  "(\<And>x t. f (g x t) = f t) \<Longrightarrow> f (fold g xs t) = f t"
  by (induction xs arbitrary: t) auto

lemma map_update_same:
  assumes "f x = f (ts ! i)"
  shows "map f (ts[i := x]) = map f ts"
proof (cases "i < length ts")
  case True
  with assms show ?thesis
    by (intro nth_equalityI) (auto simp: nth_list_update)
next
  case False
  then have "ts[i := x] = ts" by (simp add: list_update_beyond)
  then show ?thesis by simp
qed

lemma extendEndStep_Locked: "map Locked (extendEndStep i j ts) = map Locked ts"
  by (simp add: extendEndStep_def map_update_same)

lemma extendEndStep_UUID: "map UUID (extendEndStep i j ts) = map UUID ts"
  by (simp add: extendEndStep_def map_update_same)

lemma extendStartStep_Locked: "map Locked (extendStartStep i j ts) = map Locked ts"
  by (simp add: extendStartStep_def map_update_same)

lemma extendStartStep_UUID: "map UUID (extendStartStep i j ts) = map UUID ts"
  by (simp add: extendStartStep_def map_update_same)

lemma extendEnds_Locked: "map Locked (extendEnds ts) = map Locked ts"
  unfolding extendEnds_def
  by (rule fold_preserve, rule fold_preserve, rule extendEndStep_Locked)

lemma extendStarts_Locked: "map Locked (extendStarts ts) = map Locked ts"
  unfolding extendStarts_def
  by (rule fold_preserve, rule fold_preserve, rule extendStartStep_Locked)

lemma combine_snd_fold:
  "snd (fold combineStep ts st) = (snd st \<and> (\<forall>s \<in> set ts. Locked s = 1))"
  by (induction ts arbitrary: st) (auto simp: combineStep_def Let_def)

lemma set_Locked_pipeline:
  "Locked ` set (extendStarts (sortByStart (extendEnds (sortByEnd ts)))) = Locked ` set ts"
proof -
  have "Locked ` set (extendStarts (sortByStart (extendEnds (sortByEnd ts))))
        = set (map Locked (extendStarts (sortByStart (extendEnds (sortByEnd ts)))))" by simp
  also have "\<dots> = set (map Locked (sortByStart (extendEnds (sortByEnd ts))))"
    by (simp only: extendStarts_Locked)
  also have "\<dots> = Locked ` set (extendEnds (sortByEnd ts))"
    by (simp add: sortByStart_def)
  also have "\<dots> = set (map Locked (extendEnds (sortByEnd ts)))" by simp
  also have "\<dots> = set (map Locked (sortByEnd ts))"
    by (simp only: extendEnds_Locked)
  also have "\<dots> = Locked ` set ts" by (simp add: sortByEnd_def)
  finally show ?thesis .
qed


text \<open>
  Claim C8. Whenever every record has its two coordinates (so that the Go code does not
  panic), the permanent flag returned by processSegments is the conjunction of
  \<open>Locked = 1\<close> over all input records; for an empty list, a missing "segments" field
  and a response without a matching item the result is the empty list marked permanent.
\<close>

theorem processSegments_permanent:
  "((\<forall>s \<in> set ts. 2 \<le> length (Segment s)) \<longrightarrow>
      (\<exists>segs. processSegments (Some ts) = Some (segs, (\<forall>s \<in> set ts. Locked s = 1))))
   \<and> processSegments (Some []) = Some ([], True)
   \<and> processSegments None = Some ([], True)
   \<and> GetSegments_tail None = Some ([], True)"
proof -
  let ?final = "extendStarts (sortByStart (extendEnds (sortByEnd ts)))"
  have perm: "snd (combine ?final) = (\<forall>s \<in> set ts. Locked s = 1)"
  proof -
    have "snd (combine ?final) = (\<forall>l \<in> Locked ` set ?final. l = 1)"
      by (simp add: combine_def combine_snd_fold)
    also have "\<dots> = (\<forall>l \<in> Locked ` set ts. l = 1)"
      by (simp only: set_Locked_pipeline)
    finally show ?thesis by simp
  qed
  have main: "(\<forall>s \<in> set ts. 2 \<le> length (Segment s)) \<longrightarrow>
      (\<exists>segs. processSegments (Some ts) = Some (segs, (\<forall>s \<in> set ts. Locked s = 1)))"
  proof
    assume wf: "\<forall>s \<in> set ts. 2 \<le> length (Segment s)"
    then have "\<not> (\<exists>s \<in> set ts. length (Segment s) < 2)" by (auto simp: not_less)
    then have ps: "processSegments (Some ts) = Some (combine ?final)"
      by (simp add: processSegments_def)
    obtain segs p where c: "combine ?final = (segs, p)"
      by (cases "combine ?final")
    with perm have "p = (\<forall>s \<in> set ts. Locked s = 1)" by simp
    with ps c have "processSegments (Some ts) = Some (segs, (\<forall>s \<in> set ts. Locked s = 1))"
      by simp
    then show "\<exists>segs. processSegments (Some ts) = Some (segs, (\<forall>s \<in> set ts. Locked s = 1))"
      by blast
  qed
  have e1: "processSegments (Some []) = Some ([], True)"
    by (simp add: processSegments_def combine_def extendStarts_def extendEnds_def
        sortByStart_def sortByEnd_def)
  have e2: "processSegments None = Some ([], True)"
    by (simp add: processSegments_def)
  have e3: "GetSegments_tail None = Some ([], True)"
    by (simp add: GetSegments_tail_def)
  show ?thesis by (rule conjI[OF main conjI[OF e1 conjI[OF e2 e3]]])
qed

theorem processSegments_permanent_witness:
  "list_all (\<lambda>s. 2 \<le> length (Segment s))
      [\<lparr>Segment = [0, 10], UUID = ''a'', Locked = 0\<rparr>,
       \<lparr>Segment = [8, 20], UUID = ''b'', Locked = 1\<rparr>]
   \<and> (\<exists>segs. processSegments (Some [\<lparr>Segment = [0, 10], UUID = ''a'', Locked = 0\<rparr>,
                    \<lparr>Segment = [8, 20], UUID = ''b'', Locked = 1\<rparr>]) = Some (segs, False))"
  using processSegments_permanent [of "[\<lparr>Segment = [0, 10], UUID = ''a'', Locked = 0\<rparr>,
                    \<lparr>Segment = [8, 20], UUID = ''b'', Locked = 1\<rparr>]"]
  by simp

subsection \<open>The extension passes\<close>

lemma fold_rel:
  assumes "\<And>x t. R t \<Longrightarrow> R (g x t)" and "R t"
  shows "R (fold g xs t)"
  using assms(2) by (induction xs arbitrary: t) (auto intro: assms(1))

lemma extendEndStep_grow:
  assumes "list_all2 endsGrow ts0 ts" and "\<forall>s \<in> set ts0. 2 \<le> length (Segment s)"
  shows "list_all2 endsGrow ts0 (extendEndStep i j ts)"
proof (cases "i < length ts \<and> Segment (ts ! j) ! 0 \<le> Segment (ts ! i) ! 1 \<and>
                Segment (ts ! i) ! 1 \<le> Segment (ts ! j) ! 1")
  case True
  let ?x = "(ts ! i)\<lparr>Segment := (Segment (ts ! i))[1 := Segment (ts ! j) ! 1]\<rparr>"
  from True assms(1) have i0: "i < length ts0" and g: "endsGrow (ts0 ! i) (ts ! i)"
    by (auto simp: list_all2_conv_all_nth)
  from i0 assms(2) have "2 \<le> length (Segment (ts0 ! i))" by simp
  with g have "1 < length (Segment (ts ! i))" by (simp add: endsGrow_def)
  with g True have "endsGrow (ts0 ! i) ?x"
    by (auto simp: endsGrow_def)
  with assms(1) have "list_all2 endsGrow (ts0[i := ts0 ! i]) (ts[i := ?x])"
    by (rule list_all2_update_cong)
  with True show ?thesis by (simp add: extendEndStep_def)
next
  case False
  then have "extendEndStep i j ts = ts"
    by (auto simp: extendEndStep_def list_update_beyond not_less)
  with assms(1) show ?thesis by simp
qed

lemma extendEnds_grow:
  assumes "\<forall>s \<in> set ts. 2 \<le> length (Segment s)"
  shows "list_all2 endsGrow ts (extendEnds ts)"
  unfolding extendEnds_def
proof (rule fold_rel)
  show "list_all2 endsGrow ts ts"
    by (simp add: list_all2_conv_all_nth endsGrow_def)
next
  fix i t assume "list_all2 endsGrow ts t"
  then show "list_all2 endsGrow ts (fold (extendEndStep i) [0..<length ts] t)"
    by (rule fold_rel[rotated]) (rule extendEndStep_grow[OF _ assms])
qed

lemma extendStartStep_shrink:
  assumes "list_all2 startsShrink ts0 ts" and "\<forall>s \<in> set ts0. 2 \<le> length (Segment s)"
  shows "list_all2 startsShrink ts0 (extendStartStep i j ts)"
proof (cases "i < length ts \<and> Segment (ts ! j) ! 0 \<le> Segment (ts ! i) ! 0 \<and>
                Segment (ts ! i) ! 0 \<le> Segment (ts ! j) ! 1")
  case True
  let ?x = "(ts ! i)\<lparr>Segment := (Segment (ts ! i))[0 := Segment (ts ! j) ! 0]\<rparr>"
  from True assms(1) have i0: "i < length ts0" and g: "startsShrink (ts0 ! i) (ts ! i)"
    by (auto simp: list_all2_conv_all_nth)
  from i0 assms(2) have "2 \<le> length (Segment (ts0 ! i))" by simp
  with g have "0 < length (Segment (ts ! i))" by (auto simp: startsShrink_def)
  with g True have "startsShrink (ts0 ! i) ?x"
    by (auto simp: startsShrink_def)
  with assms(1) have "list_all2 startsShrink (ts0[i := ts0 ! i]) (ts[i := ?x])"
    by (rule list_all2_update_cong)
  with True show ?thesis by (simp add: extendStartStep_def)
next
  case False
  then have "extendStartStep i j ts = ts"
    by (auto simp: extendStartStep_def list_update_beyond not_less)
  with assms(1) show ?thesis by simp
qed


lemma extendStarts_shrink:
  assumes "\<forall>s \<in> set ts. 2 \<le> length (Segment s)"
  shows "list_all2 startsShrink ts (extendStarts ts)"
  unfolding extendStarts_def
proof (rule fold_rel)
  show "list_all2 startsShrink ts ts"
    by (simp add: list_all2_conv_all_nth startsShrink_def)
next
  fix i t assume "list_all2 startsShrink ts t"
  then show "list_all2 startsShrink ts (fold (extendStartStep i) (rev [0..<length ts]) t)"
    by (rule fold_rel[rotated]) (rule extendStartStep_shrink[OF _ assms])
qed

lemma fold_rev_upt_inv:
  assumes "P n s" and "\<And>k t. k < n \<Longrightarrow> P (Suc k) t \<Longrightarrow> P k (f k t)"
  shows "P 0 (fold f (rev [0..<n]) s)"
  using assms
proof (induction n arbitrary: s)
  case 0
  then show ?case by simp
next
  case (Suc n)
  have "P n (f n s)" using Suc.prems by simp
  then have "P 0 (fold f (rev [0..<n]) (f n s))"
    using Suc.prems(2) by (intro Suc.IH) auto
  then show ?case by simp
qed


lemma extendStartStep_other: "k \<noteq> i \<Longrightarrow> extendStartStep i j t ! k = t ! k"
  by (simp add: extendStartStep_def)

lemma extendStartStep_inner:
  assumes wf: "\<forall>s \<in> set ts0. wfRecord s"
    and srt: "sorted (map (\<lambda>s. Segment s ! 0) ts0)"
    and i: "i < length ts0" and j: "j < length ts0"
    and sh: "list_all2 startsShrink ts0 t"
    and J: "\<forall>l. Suc j \<le> l \<and> i < l \<and> l < length ts0 \<longrightarrow>
              Segment (t ! i) ! 0 \<le> Segment (t ! l) ! 0"
  shows "\<forall>l. j \<le> l \<and> i < l \<and> l < length ts0 \<longrightarrow>
           Segment (extendStartStep i j t ! i) ! 0 \<le> Segment (extendStartStep i j t ! l) ! 0"
proof (intro allI impI)
  fix l assume l: "j \<le> l \<and> i < l \<and> l < length ts0"
  let ?t' = "extendStartStep i j t"
  from sh have len: "length t = length ts0" by (simp add: list_all2_lengthD)
  from sh i have shi: "startsShrink (ts0 ! i) (t ! i)" by (simp add: list_all2_conv_all_nth)
  from sh j have shj: "startsShrink (ts0 ! j) (t ! j)" by (simp add: list_all2_conv_all_nth)
  from wf i have wfi: "wfRecord (ts0 ! i)" by simp
  from wf j have wfj: "wfRecord (ts0 ! j)" by simp
  from wfi shi have ne: "0 < length (Segment (t ! i))"
    by (auto simp: wfRecord_def startsShrink_def)
  from l have tl: "?t' ! l = t ! l" by (simp add: extendStartStep_other)
  show "Segment (?t' ! i) ! 0 \<le> Segment (?t' ! l) ! 0"
  proof (cases "Segment (t ! j) ! 0 \<le> Segment (t ! i) ! 0 \<and>
                Segment (t ! i) ! 0 \<le> Segment (t ! j) ! 1")
    case True
    then have ti: "Segment (?t' ! i) ! 0 = Segment (t ! j) ! 0"
      using i len ne by (simp add: extendStartStep_def)
    show ?thesis
    proof (cases "l = j")
      case True
      with ti tl show ?thesis by simp
    next
      case False
      with l have "Suc j \<le> l \<and> i < l \<and> l < length ts0" by simp
      with J have "Segment (t ! i) ! 0 \<le> Segment (t ! l) ! 0" by blast
      with True ti tl show ?thesis by simp
    qed
  next
    case False
    then have same: "?t' = t" by (auto simp: extendStartStep_def)
    show ?thesis
    proof (cases "l = j")
      case True
      with l have ij: "i < j" by simp
      from srt ij j have "Segment (ts0 ! i) ! 0 \<le> Segment (ts0 ! j) ! 0"
        using sorted_nth_mono[of "map (\<lambda>s. Segment s ! 0) ts0" i j] by simp
      moreover from shi have "Segment (t ! i) ! 0 \<le> Segment (ts0 ! i) ! 0"
        by (simp add: startsShrink_def)
      moreover from wfj have "Segment (ts0 ! j) ! 0 \<le> Segment (ts0 ! j) ! 1"
        by (simp add: wfRecord_def)
      moreover from shj have "Segment (t ! j) ! 1 = Segment (ts0 ! j) ! 1"
        by (simp add: startsShrink_def)
      ultimately have "Segment (t ! i) ! 0 \<le> Segment (t ! j) ! 1" by linarith
      with False have "Segment (t ! i) ! 0 \<le> Segment (t ! j) ! 0" by linarith
      with same True show ?thesis by simp
    next
      case False
      with l have "Suc j \<le> l \<and> i < l \<and> l < length ts0" by simp
      with J have "Segment (t ! i) ! 0 \<le> Segment (t ! l) ! 0" by blast
      with same show ?thesis by simp
    qed
  qed
qed


lemma extendStarts_sorted:
  assumes wf: "\<forall>s \<in> set ts0. wfRecord s"
    and srt: "sorted (map (\<lambda>s. Segment s ! 0) ts0)"
  shows "sorted (map (\<lambda>s. Segment s ! 0) (extendStarts ts0))"
proof -
  let ?n = "length ts0"
  let ?st = "\<lambda>t k. Segment (t ! k) ! 0"
  let ?Q = "\<lambda>i t. list_all2 startsShrink ts0 t \<and>
              (\<forall>k l. i \<le> k \<and> k \<le> l \<and> l < ?n \<longrightarrow> ?st t k \<le> ?st t l)"
  from wf have len2: "\<forall>s \<in> set ts0. 2 \<le> length (Segment s)"
    by (simp add: wfRecord_def)
  have init: "?Q ?n ts0"
    by (simp add: list_all2_conv_all_nth startsShrink_def)
  have step: "?Q i (fold (extendStartStep i) (rev [0..<?n]) ts)"
    if i: "i < ?n" and Q: "?Q (Suc i) ts" for i ts
  proof -
    let ?J = "\<lambda>j t. list_all2 startsShrink ts0 t \<and> (\<forall>k. k \<noteq> i \<longrightarrow> t ! k = ts ! k) \<and>
                (\<forall>l. j \<le> l \<and> i < l \<and> l < ?n \<longrightarrow> ?st t i \<le> ?st t l)"
    have J0: "?J ?n ts" using Q by simp
    have Jstep: "?J j (extendStartStep i j t)" if j: "j < ?n" and J: "?J (Suc j) t" for j t
    proof -
      from J have a: "list_all2 startsShrink ts0 t"
        and b: "\<forall>k. k \<noteq> i \<longrightarrow> t ! k = ts ! k"
        and c: "\<forall>l. Suc j \<le> l \<and> i < l \<and> l < ?n \<longrightarrow> ?st t i \<le> ?st t l"
        by blast+
      have "list_all2 startsShrink ts0 (extendStartStep i j t)"
        using a len2 by (rule extendStartStep_shrink)
      moreover from b have "\<forall>k. k \<noteq> i \<longrightarrow> extendStartStep i j t ! k = ts ! k"
        by (simp add: extendStartStep_other)
      moreover have "\<forall>l. j \<le> l \<and> i < l \<and> l < ?n \<longrightarrow>
          ?st (extendStartStep i j t) i \<le> ?st (extendStartStep i j t) l"
        by (rule extendStartStep_inner[OF wf srt i j a c])
      ultimately show ?thesis by blast
    qed
    let ?t = "fold (extendStartStep i) (rev [0..<?n]) ts"
    have Jfin: "?J 0 ?t"
      using J0 Jstep by (rule fold_rev_upt_inv[where P="?J"])
    show ?thesis
    proof (intro conjI allI impI)
      from Jfin show "list_all2 startsShrink ts0 ?t" by simp
    next
      fix k l assume kl: "i \<le> k \<and> k \<le> l \<and> l < ?n"
      show "?st ?t k \<le> ?st ?t l"
      proof (cases "k = i")
        case True
        show ?thesis
        proof (cases "l = i")
          case True
          with \<open>k = i\<close> show ?thesis by simp
        next
          case False
          with kl True have "0 \<le> l \<and> i < l \<and> l < ?n" by simp
          with Jfin True show ?thesis by blast
        qed
      next
        case False
        with kl have "Suc i \<le> k \<and> k \<le> l \<and> l < ?n" and "l \<noteq> i" by simp_all
        with Q have "?st ts k \<le> ?st ts l" by blast
        moreover from Jfin False have "?t ! k = ts ! k" by blast
        moreover from Jfin \<open>l \<noteq> i\<close> have "?t ! l = ts ! l" by blast
        ultimately show ?thesis by simp
      qed
    qed
  qed
  have "?Q 0 (fold (\<lambda>i. fold (extendStartStep i) (rev [0..<?n])) (rev [0..<?n]) ts0)"
    using init step by (rule fold_rev_upt_inv[where P="?Q"])
  then have fin: "?Q 0 (extendStarts ts0)" by (simp add: extendStarts_def)
  then have len: "length (extendStarts ts0) = ?n" by (auto dest: list_all2_lengthD)
  show ?thesis
    unfolding sorted_iff_nth_mono
  proof (intro allI impI)
    fix a b assume "a \<le> b" and "b < length (map (\<lambda>s. Segment s ! 0) (extendStarts ts0))"
    with len have "0 \<le> a \<and> a \<le> b \<and> b < ?n" by simp
    with fin have "?st (extendStarts ts0) a \<le> ?st (extendStarts ts0) b" by blast
    with \<open>a \<le> b\<close> \<open>b < length (map (\<lambda>s. Segment s ! 0) (extendStarts ts0))\<close>
    show "map (\<lambda>s. Segment s ! 0) (extendStarts ts0) ! a \<le> map (\<lambda>s. Segment s ! 0) (extendStarts ts0) ! b"
      by simp
  qed
qed


subsection \<open>The combining loop\<close>

lemma gapMin_pos: "0 < gapMin"
  by (simp add: gapMin_def)

lemma combineStep_gapOrdered:
  assumes "gapOrdered segs" and "Segment s ! 0 \<le> Segment s ! 1"
    and "\<forall>g \<in> set segs. Start g \<le> Segment s ! 0"
  shows "gapOrdered (fst (combineStep s (segs, b))) \<and>
         (\<forall>g \<in> set (fst (combineStep s (segs, b))). Start g \<le> Segment s ! 0)"
proof (cases segs rule: rev_cases)
  case Nil
  with assms show ?thesis
    by (simp add: combineStep_def gapOrdered_def)
next
  case (snoc bl l)
  from snoc assms(1) have bl: "sorted_wrt (\<lambda>a b. End a + gapMin \<le> Start b) bl"
    and bll: "\<forall>x \<in> set bl. End x + gapMin \<le> Start l"
    and blw: "\<forall>g \<in> set bl. Start g \<le> End g \<and> UUIDs g \<noteq> []"
    and lw: "Start l \<le> End l" and lu: "UUIDs l \<noteq> []"
    by (auto simp: gapOrdered_def sorted_wrt_append)
  from snoc assms(3) have ls: "Start l \<le> Segment s ! 0"
    and bls: "\<forall>g \<in> set bl. Start g \<le> Segment s ! 0" by simp_all
  show ?thesis
  proof (cases "float64_diff_below_one (Segment s ! 0) (End l)")
    case True
    then have "fst (combineStep s (segs, b)) =
        bl @ [\<lparr>Start = Start l, End = Segment s ! 1, UUIDs = UUID s # UUIDs l\<rparr>]"
      using snoc by (simp add: combineStep_def)
    moreover have "gapOrdered (bl @ [\<lparr>Start = Start l, End = Segment s ! 1, UUIDs = UUID s # UUIDs l\<rparr>])"
      using bl bll blw ls assms(2) by (auto simp: gapOrdered_def sorted_wrt_append)
    ultimately show ?thesis using ls bls by auto
  next
    case False
    then have far: "End l + gapMin \<le> Segment s ! 0"
      by (simp add: float64_diff_below_one_def)
    have "\<forall>x \<in> set bl. End x + gapMin \<le> Segment s ! 0"
    proof
      fix x assume "x \<in> set bl"
      with bll have "End x + gapMin \<le> Start l" by simp
      with lw far gapMin_pos show "End x + gapMin \<le> Segment s ! 0" by linarith
    qed
    with far bl bll blw lw lu assms(2) snoc
    have "gapOrdered (segs @ [\<lparr>Start = Segment s ! 0, End = Segment s ! 1, UUIDs = [UUID s]\<rparr>])"
      by (auto simp: gapOrdered_def sorted_wrt_append)
    moreover from False snoc have "fst (combineStep s (segs, b)) =
        segs @ [\<lparr>Start = Segment s ! 0, End = Segment s ! 1, UUIDs = [UUID s]\<rparr>]"
      by (simp add: combineStep_def)
    ultimately show ?thesis using assms(3) by auto
  qed
qed

lemma combine_fold_gapOrdered:
  assumes "sorted (map (\<lambda>s. Segment s ! 0) ts)"
    and "\<forall>s \<in> set ts. Segment s ! 0 \<le> Segment s ! 1"
    and "gapOrdered segs"
    and "\<forall>g \<in> set segs. \<forall>s \<in> set ts. Start g \<le> Segment s ! 0"
  shows "gapOrdered (fst (fold combineStep ts (segs, b)))"
  using assms
proof (induction ts arbitrary: segs b)
  case Nil
  then show ?case by simp
next
  case (Cons s ts)
  obtain segs' b' where st: "combineStep s (segs, b) = (segs', b')"
    by (cases "combineStep s (segs, b)")
  have "gapOrdered (fst (combineStep s (segs, b))) \<and>
        (\<forall>g \<in> set (fst (combineStep s (segs, b))). Start g \<le> Segment s ! 0)"
    using Cons.prems by (intro combineStep_gapOrdered) simp_all
  with st have g: "gapOrdered segs'" and le: "\<forall>g \<in> set segs'. Start g \<le> Segment s ! 0"
    by simp_all
  from Cons.prems(1) have "\<forall>s' \<in> set ts. Segment s ! 0 \<le> Segment s' ! 0" by simp
  with le have "\<forall>g \<in> set segs'. \<forall>s' \<in> set ts. Start g \<le> Segment s' ! 0"
    by (meson order_trans)
  moreover from Cons.prems have "sorted (map (\<lambda>s. Segment s ! 0) ts)"
    and "\<forall>s \<in> set ts. Segment s ! 0 \<le> Segment s ! 1" by simp_all
  ultimately have "gapOrdered (fst (fold combineStep ts (segs', b')))"
    using g by (intro Cons.IH)
  with st show ?case by simp
qed

lemma combineStep_ids:
  "mset (concat (map UUIDs (fst (combineStep s (segs, b))))) =
   mset (concat (map UUIDs segs)) + {#UUID s#}"
  by (cases segs rule: rev_cases) (simp_all add: combineStep_def Let_def)

lemma combine_fold_ids:
  "mset (concat (map UUIDs (fst (fold combineStep ts (segs, b))))) =
   mset (concat (map UUIDs segs)) + mset (map UUID ts)"
proof (induction ts arbitrary: segs b)
  case Nil
  then show ?case by simp
next
  case (Cons s ts)
  obtain segs' b' where st: "combineStep s (segs, b) = (segs', b')"
    by (cases "combineStep s (segs, b)")
  with combineStep_ids[of s segs b]
  have "mset (concat (map UUIDs segs')) = mset (concat (map UUIDs segs)) + {#UUID s#}"
    by simp
  with Cons.IH[of segs' b'] st show ?case by simp
qed


lemma endsGrow_wf:
  assumes "list_all2 endsGrow a b" and "\<forall>s \<in> set a. wfRecord s"
  shows "\<forall>s \<in> set b. wfRecord s"
proof
  fix s assume "s \<in> set b"
  then obtain k where k: "k < length b" and s: "s = b ! k" by (auto simp: in_set_conv_nth)
  with assms(1) have "endsGrow (a ! k) s" and "k < length a"
    by (auto simp: list_all2_conv_all_nth)
  moreover with assms(2) have "wfRecord (a ! k)" by simp
  ultimately show "wfRecord s" by (auto simp: endsGrow_def wfRecord_def)
qed

lemma startsShrink_wf:
  assumes "list_all2 startsShrink a b" and "\<forall>s \<in> set a. wfRecord s"
  shows "\<forall>s \<in> set b. wfRecord s"
proof
  fix s assume "s \<in> set b"
  then obtain k where k: "k < length b" and s: "s = b ! k" by (auto simp: in_set_conv_nth)
  with assms(1) have "startsShrink (a ! k) s" and "k < length a"
    by (auto simp: list_all2_conv_all_nth)
  moreover with assms(2) have "wfRecord (a ! k)" by simp
  ultimately show "wfRecord s" by (auto simp: startsShrink_def wfRecord_def)
qed

lemma wf_len2: "\<forall>s \<in> set ts. wfRecord s \<Longrightarrow> \<forall>s \<in> set ts. 2 \<le> length (Segment s)"
  by (simp add: wfRecord_def)

lemma isSortSlice_set: "isSortSlice key srt \<Longrightarrow> set (srt xs) = set xs"
  by (metis isSortSlice_def mset_eq_setD)

lemma isSortSlice_sorted: "isSortSlice key srt \<Longrightarrow> sorted (map key (srt xs))"
  by (simp add: isSortSlice_def)

lemma isSortSlice_sort_key: "isSortSlice key (sort_key key)"
  by (simp add: isSortSlice_def)

lemma pipeline_wf_sorted:
  assumes "\<forall>s \<in> set rs. wfRecord s"
    and sE: "isSortSlice (\<lambda>s. Segment s ! 1) sortEnd"
    and sS: "isSortSlice (\<lambda>s. Segment s ! 0) sortStart"
  shows "(\<forall>s \<in> set (extendStarts (sortStart (extendEnds (sortEnd rs)))). wfRecord s) \<and>
         sorted (map (\<lambda>s. Segment s ! 0) (extendStarts (sortStart (extendEnds (sortEnd rs)))))"
proof -
  let ?t1 = "sortEnd rs"
  let ?t2 = "extendEnds ?t1"
  let ?t3 = "sortStart ?t2"
  from assms(1) have w1: "\<forall>s \<in> set ?t1. wfRecord s" by (simp add: isSortSlice_set[OF sE])
  have "list_all2 endsGrow ?t1 ?t2" using w1 by (intro extendEnds_grow wf_len2)
  then have w2: "\<forall>s \<in> set ?t2. wfRecord s" using w1 by (rule endsGrow_wf)
  then have w3: "\<forall>s \<in> set ?t3. wfRecord s" by (simp add: isSortSlice_set[OF sS])
  have s3: "sorted (map (\<lambda>s. Segment s ! 0) ?t3)" by (rule isSortSlice_sorted[OF sS])
  have "list_all2 startsShrink ?t3 (extendStarts ?t3)"
    using w3 by (intro extendStarts_shrink wf_len2)
  then have "\<forall>s \<in> set (extendStarts ?t3). wfRecord s" using w3 by (rule startsShrink_wf)
  moreover have "sorted (map (\<lambda>s. Segment s ! 0) (extendStarts ?t3))"
    using w3 s3 by (rule extendStarts_sorted)
  ultimately show ?thesis by blast
qed

lemma extendEnds_UUID: "map UUID (extendEnds ts) = map UUID ts"
  unfolding extendEnds_def
  by (rule fold_preserve, rule fold_preserve, rule extendEndStep_UUID)

lemma extendStarts_UUID: "map UUID (extendStarts ts) = map UUID ts"
  unfolding extendStarts_def
  by (rule fold_preserve, rule fold_preserve, rule extendStartStep_UUID)

lemma pipeline_UUID:
  assumes sE: "isSortSlice (\<lambda>s. Segment s ! 1) sortEnd"
    and sS: "isSortSlice (\<lambda>s. Segment s ! 0) sortStart"
  shows "mset (map UUID (extendStarts (sortStart (extendEnds (sortEnd rs))))) = mset (map UUID rs)"
proof -
  have pE: "mset (sortEnd xs) = mset xs" for xs using sE by (simp add: isSortSlice_def)
  have pS: "mset (sortStart xs) = mset xs" for xs using sS by (simp add: isSortSlice_def)
  have "mset (map UUID (extendStarts (sortStart (extendEnds (sortEnd rs)))))
        = mset (map UUID (sortStart (extendEnds (sortEnd rs))))"
    by (simp only: extendStarts_UUID)
  also have "\<dots> = image_mset UUID (mset (extendEnds (sortEnd rs)))"
    by (simp add: pS)
  also have "\<dots> = mset (map UUID (extendEnds (sortEnd rs)))" by simp
  also have "\<dots> = mset (map UUID (sortEnd rs))" by (simp only: extendEnds_UUID)
  also have "\<dots> = mset (map UUID rs)" by (simp add: pE)
  finally show ?thesis .
qed

lemma gapOrdered_nth:
  assumes "gapOrdered segs" and "i < j" and "j < length segs"
  shows "End (segs ! i) + gapMin \<le> Start (segs ! j)"
  using assms by (simp add: gapOrdered_def sorted_wrt_iff_nth_less)

lemma gapOrdered_sorted:
  assumes "gapOrdered segs"
  shows "sorted (map Start segs)"
proof -
  from assms have sw: "sorted_wrt (\<lambda>a b. End a + gapMin \<le> Start b) segs"
    and se: "\<forall>g \<in> set segs. Start g \<le> End g" by (simp_all add: gapOrdered_def)
  have "sorted_wrt (\<lambda>a b. Start a \<le> Start b) segs"
  proof (rule sorted_wrt_mono_rel[OF _ sw])
    fix x y assume "x \<in> set segs" and "End x + gapMin \<le> Start y"
    moreover with se have "Start x \<le> End x" by simp
    ultimately show "Start x \<le> Start y" using gapMin_pos by linarith
  qed
  then show ?thesis by (simp add: sorted_map)
qed

lemma pipeline_gapOrdered:
  assumes "\<forall>s \<in> set rs. wfRecord s"
    and sE: "isSortSlice (\<lambda>s. Segment s ! 1) sortEnd"
    and sS: "isSortSlice (\<lambda>s. Segment s ! 0) sortStart"
  shows "gapOrdered (fst (combine (extendStarts (sortStart (extendEnds (sortEnd rs))))))"
proof -
  let ?ts = "extendStarts (sortStart (extendEnds (sortEnd rs)))"
  from pipeline_wf_sorted[OF assms]
  have wf: "\<forall>s \<in> set ?ts. wfRecord s" and srt: "sorted (map (\<lambda>s. Segment s ! 0) ?ts)"
    by blast+
  from wf have se: "\<forall>s \<in> set ?ts. Segment s ! 0 \<le> Segment s ! 1" by (simp add: wfRecord_def)
  have "gapOrdered (fst (fold combineStep ?ts ([], True)))"
    using srt se by (rule combine_fold_gapOrdered) (simp_all add: gapOrdered_def)
  then show ?thesis by (simp add: combine_def)
qed

lemma processSegments_With:
  "processSegments raw = processSegmentsWith sortByEnd sortByStart raw"
  by (simp add: processSegments_def processSegmentsWith_def)

lemma isSortSlice_sortByEnd: "isSortSlice (\<lambda>s. Segment s ! 1) sortByEnd"
  unfolding isSortSlice_def sortByEnd_def by simp

lemma isSortSlice_sortByStart: "isSortSlice (\<lambda>s. Segment s ! 0) sortByStart"
  unfolding isSortSlice_def sortByStart_def by simp

text \<open>
  Claim C2, as the code has it. For every list of well-formed raw records, and whatever
  order the two sorts leave records with equal keys in, processSegments returns a list in
  which every segment ends strictly before each later one starts (pairwise
  non-overlapping), which is sorted ascending by start, and whose ids, counted with
  multiplicity, are exactly the ids of the input records. Consecutive segments are at least
  one second apart as the code measures it, in float64: the exact gap is at least
  \<^verbatim>\<open>1 - 2^-54\<close>, the least difference that float64 subtraction does not round below 1.
\<close>

theorem processSegments_canonical:
  assumes "\<forall>s \<in> set rs. wfRecord s"
    and "isSortSlice (\<lambda>s. Segment s ! 1) sortEnd"
    and "isSortSlice (\<lambda>s. Segment s ! 0) sortStart"
  shows "\<exists>segs perm. processSegmentsWith sortEnd sortStart (Some rs) = Some (segs, perm) \<and>
           (\<forall>i j. i < j \<and> j < length segs \<longrightarrow> End (segs ! i) < Start (segs ! j)) \<and>
           (\<forall>g \<in> set segs. Start g \<le> End g) \<and>
           sorted (map Start segs) \<and>
           (\<forall>k. Suc k < length segs \<longrightarrow>
                1 - 1 / 2 ^ 54 \<le> Start (segs ! Suc k) - End (segs ! k) \<and>
                \<not> float64_diff_below_one (Start (segs ! Suc k)) (End (segs ! k))) \<and>
           mset (concat (map UUIDs segs)) = mset (map UUID rs)"
proof -
  let ?ts = "extendStarts (sortStart (extendEnds (sortEnd rs)))"
  obtain segs perm where c: "combine ?ts = (segs, perm)" by (cases "combine ?ts")
  from assms(1) have "\<not> (\<exists>s \<in> set rs. length (Segment s) < 2)"
    by (auto simp: wfRecord_def)
  with c have ps: "processSegmentsWith sortEnd sortStart (Some rs) = Some (segs, perm)"
    by (simp add: processSegmentsWith_def)
  from pipeline_gapOrdered[OF assms] c have go: "gapOrdered segs" by simp
  have p1: "\<forall>i j. i < j \<and> j < length segs \<longrightarrow> End (segs ! i) < Start (segs ! j)"
  proof (intro allI impI)
    fix i j assume "i < j \<and> j < length segs"
    with go have "End (segs ! i) + gapMin \<le> Start (segs ! j)" by (simp add: gapOrdered_nth)
    with gapMin_pos show "End (segs ! i) < Start (segs ! j)" by linarith
  qed
  from go have p2: "\<forall>g \<in> set segs. Start g \<le> End g" by (simp add: gapOrdered_def)
  from go have p3: "sorted (map Start segs)" by (rule gapOrdered_sorted)
  have p4: "\<forall>k. Suc k < length segs \<longrightarrow>
                1 - 1 / 2 ^ 54 \<le> Start (segs ! Suc k) - End (segs ! k) \<and>
                \<not> float64_diff_below_one (Start (segs ! Suc k)) (End (segs ! k))"
  proof (intro allI impI)
    fix k assume "Suc k < length segs"
    with go have "End (segs ! k) + gapMin \<le> Start (segs ! Suc k)" by (simp add: gapOrdered_nth)
    then have "gapMin \<le> Start (segs ! Suc k) - End (segs ! k)" by simp
    then show "1 - 1 / 2 ^ 54 \<le> Start (segs ! Suc k) - End (segs ! k) \<and>
                \<not> float64_diff_below_one (Start (segs ! Suc k)) (End (segs ! k))"
      by (simp add: float64_diff_below_one_def gapMin_def)
  qed
  have "mset (concat (map UUIDs (fst (fold combineStep ?ts ([], True))))) =
        mset (concat (map UUIDs ([] :: Segment list))) + mset (map UUID ?ts)"
    by (rule combine_fold_ids)
  with c have "mset (concat (map UUIDs segs)) = mset (map UUID ?ts)"
    by (simp add: combine_def)
  then have p5: "mset (concat (map UUIDs segs)) = mset (map UUID rs)"
    by (simp only: pipeline_UUID[OF assms(2,3)])
  show ?thesis
    by (intro exI[of _ segs] exI[of _ perm] conjI) (fact ps p1 p2 p3 p4 p5)+
qed

text \<open>The example of the specification, evaluated.\<close>

lemma upt3: "[0..<3] = [0, 1, 2]"
  by (simp add: upt_rec)

lemma upt2: "[0..<2] = [0, 1]"
  by (simp add: upt_rec)

lemma processSegments_example:
  "processSegments (Some
        [\<lparr>Segment = [0, 10], UUID = ''a'', Locked = 0\<rparr>,
         \<lparr>Segment = [8, 20], UUID = ''b'', Locked = 1\<rparr>,
         \<lparr>Segment = [25, 30], UUID = ''c'', Locked = 1\<rparr>])
   = Some ([\<lparr>Start = 0, End = 20, UUIDs = [''b'', ''a'']\<rparr>,
            \<lparr>Start = 25, End = 30, UUIDs = [''c'']\<rparr>], False)"
  by (simp add: processSegments_def sortByEnd_def sortByStart_def extendEnds_def extendStarts_def
      extendEndStep_def extendStartStep_def combine_def combineStep_def upt3
      float64_diff_below_one_def gapMin_def)

theorem processSegments_canonical_witness:
  "list_all wfRecord
     [\<lparr>Segment = [0, 10], UUID = ''a'', Locked = 0\<rparr>,
      \<lparr>Segment = [8, 20], UUID = ''b'', Locked = 1\<rparr>,
      \<lparr>Segment = [25, 30], UUID = ''c'', Locked = 1\<rparr>] \<and>
   isSortSlice (\<lambda>s. Segment s ! 1) sortByEnd \<and>
   isSortSlice (\<lambda>s. Segment s ! 0) sortByStart \<and>
   (\<exists>segs perm.
      processSegments (Some
        [\<lparr>Segment = [0, 10], UUID = ''a'', Locked = 0\<rparr>,
         \<lparr>Segment = [8, 20], UUID = ''b'', Locked = 1\<rparr>,
         \<lparr>Segment = [25, 30], UUID = ''c'', Locked = 1\<rparr>]) = Some (segs, perm) \<and>
      segs = [\<lparr>Start = 0, End = 20, UUIDs = [''b'', ''a'']\<rparr>,
              \<lparr>Start = 25, End = 30, UUIDs = [''c'']\<rparr>] \<and>
      (\<forall>i j. i < j \<and> j < length segs \<longrightarrow> End (segs ! i) < Start (segs ! j)) \<and>
      (\<forall>g \<in> set segs. Start g \<le> End g) \<and>
      sorted (map Start segs) \<and>
      (\<forall>k. Suc k < length segs \<longrightarrow>
           1 - 1 / 2 ^ 54 \<le> Start (segs ! Suc k) - End (segs ! k) \<and>
           \<not> float64_diff_below_one (Start (segs ! Suc k)) (End (segs ! k))) \<and>
      mset (concat (map UUIDs segs)) =
        mset (map UUID
          [\<lparr>Segment = [0, 10], UUID = ''a'', Locked = 0\<rparr>,
           \<lparr>Segment = [8, 20], UUID = ''b'', Locked = 1\<rparr>,
           \<lparr>Segment = [25, 30], UUID = ''c'', Locked = 1\<rparr>]))"
proof -
  let ?ex = "[\<lparr>Segment = [0, 10], UUID = ''a'', Locked = 0\<rparr>,
      \<lparr>Segment = [8, 20], UUID = ''b'', Locked = 1\<rparr>,
      \<lparr>Segment = [25, 30], UUID = ''c'', Locked = 1\<rparr>]"
  have h: "\<forall>s \<in> set ?ex. wfRecord s" by (simp add: wfRecord_def)
  have h': "list_all wfRecord ?ex" by (simp add: wfRecord_def)
  from processSegments_canonical[OF h isSortSlice_sortByEnd isSortSlice_sortByStart]
  obtain segs perm where r:
    "processSegmentsWith sortByEnd sortByStart (Some ?ex) = Some (segs, perm)"
    "\<forall>i j. i < j \<and> j < length segs \<longrightarrow> End (segs ! i) < Start (segs ! j)"
    "\<forall>g \<in> set segs. Start g \<le> End g"
    "sorted (map Start segs)"
    "\<forall>k. Suc k < length segs \<longrightarrow>
           1 - 1 / 2 ^ 54 \<le> Start (segs ! Suc k) - End (segs ! k) \<and>
           \<not> float64_diff_below_one (Start (segs ! Suc k)) (End (segs ! k))"
    "mset (concat (map UUIDs segs)) = mset (map UUID ?ex)"
    by blast
  from r(1) have ps: "processSegments (Some ?ex) = Some (segs, perm)"
    by (simp only: processSegments_With)
  with processSegments_example
  have eq: "segs = [\<lparr>Start = 0, End = 20, UUIDs = [''b'', ''a'']\<rparr>,
              \<lparr>Start = 25, End = 30, UUIDs = [''c'']\<rparr>]" by simp
  have "\<exists>segs perm.
      processSegments (Some ?ex) = Some (segs, perm) \<and>
      segs = [\<lparr>Start = 0, End = 20, UUIDs = [''b'', ''a'']\<rparr>,
              \<lparr>Start = 25, End = 30, UUIDs = [''c'']\<rparr>] \<and>
      (\<forall>i j. i < j \<and> j < length segs \<longrightarrow> End (segs ! i) < Start (segs ! j)) \<and>
      (\<forall>g \<in> set segs. Start g \<le> End g) \<and>
      sorted (map Start segs) \<and>
      (\<forall>k. Suc k < length segs \<longrightarrow>
           1 - 1 / 2 ^ 54 \<le> Start (segs ! Suc k) - End (segs ! k) \<and>
           \<not> float64_diff_below_one (Start (segs ! Suc k)) (End (segs ! k))) \<and>
      mset (concat (map UUIDs segs)) = mset (map UUID ?ex)"
    by (intro exI[of _ segs] exI[of _ perm] conjI) (fact ps eq r(2-6))+
  with h' isSortSlice_sortByEnd isSortSlice_sortByStart show ?thesis by blast
qed

text \<open>
  Claim C2, as stated, fails on the gap. The records [0, 2^-54] and [1, 2] are exactly one
  second minus 2^-54 apart; the float64 difference rounds to 1, the code does not combine
  them, and the output has two consecutive segments less than 1.0 second apart.
\<close>

theorem processSegments_gap_below_one:
  "processSegments (Some
      [\<lparr>Segment = [0, 1 / 2 ^ 54], UUID = ''a'', Locked = 1\<rparr>,
       \<lparr>Segment = [1, 2], UUID = ''b'', Locked = 1\<rparr>])
     = Some ([\<lparr>Start = 0, End = 1 / 2 ^ 54, UUIDs = [''a'']\<rparr>,
              \<lparr>Start = 1, End = 2, UUIDs = [''b'']\<rparr>], True) \<and>
   Start \<lparr>Start = 1, End = 2, UUIDs = [''b'']\<rparr> -
     End \<lparr>Start = 0, End = 1 / 2 ^ 54, UUIDs = [''a'']\<rparr> < 1"
  by (simp add: processSegments_def sortByEnd_def sortByStart_def extendEnds_def extendStarts_def
      extendEndStep_def extendStartStep_def combine_def combineStep_def upt2
      float64_diff_below_one_def gapMin_def)

subsection \<open>Merging the output of a merge\<close>

lemma combine_group_tail:
  assumes "Start g \<le> End g"
  shows "fold combineStep (asRecords perm g us)
           (acc @ [\<lparr>Start = Start g, End = End g, UUIDs = ids\<rparr>], b) =
         (acc @ [\<lparr>Start = Start g, End = End g, UUIDs = rev us @ ids\<rparr>], b \<and> (us = [] \<or> perm))"
  using assms
proof (induction us arbitrary: ids b)
  case Nil
  then show ?case by (simp add: asRecords_def)
next
  case (Cons u us)
  from Cons.prems gapMin_pos have "float64_diff_below_one (Start g) (End g)"
    by (simp add: float64_diff_below_one_def)
  then have "combineStep \<lparr>Segment = [Start g, End g], UUID = u, Locked = (if perm then 1 else 0)\<rparr>
          (acc @ [\<lparr>Start = Start g, End = End g, UUIDs = ids\<rparr>], b) =
        (acc @ [\<lparr>Start = Start g, End = End g, UUIDs = u # ids\<rparr>], b \<and> perm)"
    by (simp add: combineStep_def)
  then have "fold combineStep (asRecords perm g (u # us))
           (acc @ [\<lparr>Start = Start g, End = End g, UUIDs = ids\<rparr>], b) =
        fold combineStep (asRecords perm g us)
           (acc @ [\<lparr>Start = Start g, End = End g, UUIDs = u # ids\<rparr>], b \<and> perm)"
    by (simp add: asRecords_def)
  also have "\<dots> = (acc @ [\<lparr>Start = Start g, End = End g, UUIDs = rev us @ u # ids\<rparr>],
                    (b \<and> perm) \<and> (us = [] \<or> perm))"
    using Cons.prems by (rule Cons.IH)
  finally show ?case by auto
qed

lemma combine_group:
  assumes "Start g \<le> End g" and "us \<noteq> []"
    and "acc = [] \<or> gapMin \<le> Start g - End (last acc)"
  shows "fold combineStep (asRecords perm g us) (acc, b) =
         (acc @ [\<lparr>Start = Start g, End = End g, UUIDs = rev us\<rparr>], b \<and> perm)"
proof -
  from assms(2) obtain u us' where us: "us = u # us'" by (cases us) auto
  have "combineStep \<lparr>Segment = [Start g, End g], UUID = u, Locked = (if perm then 1 else 0)\<rparr>
          (acc, b) = (acc @ [\<lparr>Start = Start g, End = End g, UUIDs = [u]\<rparr>], b \<and> perm)"
    using assms(3) by (auto simp: combineStep_def float64_diff_below_one_def)
  then have "fold combineStep (asRecords perm g us) (acc, b) =
        fold combineStep (asRecords perm g us')
           (acc @ [\<lparr>Start = Start g, End = End g, UUIDs = [u]\<rparr>], b \<and> perm)"
    by (simp add: asRecords_def us)
  also have "\<dots> = (acc @ [\<lparr>Start = Start g, End = End g, UUIDs = rev us' @ [u]\<rparr>],
                    (b \<and> perm) \<and> (us' = [] \<or> perm))"
    using assms(1) by (rule combine_group_tail)
  finally show ?thesis by (auto simp: us)
qed

lemma fold_id: "(\<And>x. x \<in> set xs \<Longrightarrow> g x t = t) \<Longrightarrow> fold g xs t = t"
  by (induction xs) auto

lemma extendEnds_id:
  assumes "\<forall>a \<in> set ts. \<forall>b \<in> set ts.
             Segment b ! 0 \<le> Segment a ! 1 \<and> Segment a ! 1 \<le> Segment b ! 1 \<longrightarrow>
             Segment b ! 1 = Segment a ! 1"
  shows "extendEnds ts = ts"
proof -
  have step: "extendEndStep i j ts = ts" if "i < length ts" and "j < length ts" for i j
  proof -
    from that have "ts ! i \<in> set ts" and "ts ! j \<in> set ts" by simp_all
    with assms have "Segment (ts ! j) ! 0 \<le> Segment (ts ! i) ! 1 \<and>
        Segment (ts ! i) ! 1 \<le> Segment (ts ! j) ! 1 \<longrightarrow>
        Segment (ts ! j) ! 1 = Segment (ts ! i) ! 1" by blast
    then show ?thesis by (auto simp: extendEndStep_def)
  qed
  have inner: "fold (extendEndStep i) [0..<length ts] ts = ts" if "i < length ts" for i
    by (rule fold_id) (simp add: step that)
  show ?thesis unfolding extendEnds_def
    by (rule fold_id) (simp add: inner)
qed

lemma extendStarts_id:
  assumes "\<forall>a \<in> set ts. \<forall>b \<in> set ts.
             Segment b ! 0 \<le> Segment a ! 0 \<and> Segment a ! 0 \<le> Segment b ! 1 \<longrightarrow>
             Segment b ! 0 = Segment a ! 0"
  shows "extendStarts ts = ts"
proof -
  have step: "extendStartStep i j ts = ts" if "i < length ts" and "j < length ts" for i j
  proof -
    from that have "ts ! i \<in> set ts" and "ts ! j \<in> set ts" by simp_all
    with assms have "Segment (ts ! j) ! 0 \<le> Segment (ts ! i) ! 0 \<and>
        Segment (ts ! i) ! 0 \<le> Segment (ts ! j) ! 1 \<longrightarrow>
        Segment (ts ! j) ! 0 = Segment (ts ! i) ! 0" by blast
    then show ?thesis by (auto simp: extendStartStep_def)
  qed
  have inner: "fold (extendStartStep i) (rev [0..<length ts]) ts = ts" if "i < length ts" for i
    by (rule fold_id) (simp add: step that)
  show ?thesis unfolding extendStarts_def
    by (rule fold_id) (simp add: inner)
qed

lemma gapOrdered_pair:
  assumes "gapOrdered segs" and "g \<in> set segs" and "h \<in> set segs"
  shows "g = h \<or> End g + gapMin \<le> Start h \<or> End h + gapMin \<le> Start g"
proof -
  from assms(2,3) obtain i j where i: "i < length segs" "segs ! i = g"
    and j: "j < length segs" "segs ! j = h" by (auto simp: in_set_conv_nth)
  consider "i < j" | "j < i" | "i = j" by linarith
  then show ?thesis
  proof cases
    case 1
    have "End (segs ! i) + gapMin \<le> Start (segs ! j)" by (rule gapOrdered_nth[OF assms(1) 1 j(1)])
    with i j show ?thesis by simp
  next
    case 2
    have "End (segs ! j) + gapMin \<le> Start (segs ! i)" by (rule gapOrdered_nth[OF assms(1) 2 i(1)])
    with i j show ?thesis by simp
  next
    case 3
    with i j show ?thesis by simp
  qed
qed

lemma reencode_set:
  assumes "r \<in> set (reencode perm segs)"
  shows "\<exists>g \<in> set segs. Segment r = [Start g, End g]"
  using assms by (auto simp: reencode_def asRecords_def)

lemma sorted_split_least:
  fixes f :: "'a \<Rightarrow> real"
  assumes "sorted (map f xs)" and "\<forall>x \<in> set xs. f x = a \<or> a < f x"
  shows "xs = filter (\<lambda>x. f x = a) xs @ filter (\<lambda>x. f x \<noteq> a) xs"
  using assms
proof (induction xs)
  case Nil
  then show ?case by simp
next
  case (Cons x xs)
  show ?case
  proof (cases "f x = a")
    case True
    with Cons show ?thesis by simp
  next
    case False
    with Cons.prems(2) have "a < f x" by simp
    with Cons.prems(1) have "\<forall>y \<in> set xs. a < f y" by fastforce
    then have "filter (\<lambda>x. f x = a) xs = []" and "filter (\<lambda>x. f x \<noteq> a) xs = xs"
      by (auto simp: filter_empty_conv filter_id_conv)
    with False show ?thesis by simp
  qed
qed

lemma asRecords_UUID: "map UUID (asRecords perm g us) = us"
  by (simp add: asRecords_def comp_def)

lemma combine_grouped:
  assumes "gapOrdered segs"
    and "sorted (map (\<lambda>r. Segment r ! 0) ts)"
    and "mset ts = mset (reencode perm segs)"
    and "acc \<noteq> [] \<longrightarrow> (\<forall>g \<in> set segs. gapMin \<le> Start g - End (last acc))"
  shows "\<exists>out. fold combineStep ts (acc, b) = (acc @ out, b \<and> (segs = [] \<or> perm)) \<and>
           map Start out = map Start segs \<and> map End out = map End segs \<and>
           map (\<lambda>g. mset (UUIDs g)) out = map (\<lambda>g. mset (UUIDs g)) segs"
  using assms
proof (induction segs arbitrary: ts acc b)
  case Nil
  then have "ts = []" by (simp add: reencode_def)
  then show ?case by simp
next
  case (Cons g segs)
  let ?P = "\<lambda>r. Segment r ! 0 = Start g"
  let ?X = "asRecords perm g (UUIDs g)"
  let ?Y = "reencode perm segs"
  let ?A = "filter ?P ts"
  let ?B = "filter (\<lambda>r. \<not> ?P r) ts"
  from Cons.prems(1) have go: "gapOrdered segs"
    and lt: "\<forall>h \<in> set segs. End g + gapMin \<le> Start h"
    and ge: "Start g \<le> End g" and gu: "UUIDs g \<noteq> []"
    by (simp_all add: gapOrdered_def)
  have enc: "reencode perm (g # segs) = ?X @ ?Y" by (simp add: reencode_def)
  have PX: "\<forall>r \<in> set ?X. ?P r" by (simp add: asRecords_def)
  have PY: "\<forall>r \<in> set ?Y. Start g < Segment r ! 0"
  proof
    fix r assume "r \<in> set ?Y"
    then obtain h where h: "h \<in> set segs" "Segment r = [Start h, End h]"
      using reencode_set by blast
    with lt have "End g + gapMin \<le> Start h" by simp
    with ge gapMin_pos h(2) show "Start g < Segment r ! 0" by simp
  qed
  from Cons.prems(3) enc have sets: "set ts = set ?X \<union> set ?Y"
    by (metis mset_eq_setD set_append)
  with PX PY have least: "\<forall>r \<in> set ts. Segment r ! 0 = Start g \<or> Start g < Segment r ! 0"
    by blast
  have split: "ts = ?A @ ?B"
    using sorted_split_least[OF Cons.prems(2) least] by simp
  have fX: "filter ?P ?X = ?X" using PX by (simp add: filter_id_conv)
  have fY: "filter ?P ?Y = []" using PY by (auto simp: filter_empty_conv)
  have nX: "filter (\<lambda>r. \<not> ?P r) ?X = []" using PX by (auto simp: filter_empty_conv)
  have nY: "filter (\<lambda>r. \<not> ?P r) ?Y = ?Y" using PY by (auto simp: filter_id_conv)
  have "mset ?A = filter_mset ?P (mset ts)" by simp
  also have "\<dots> = mset (filter ?P (?X @ ?Y))" using Cons.prems(3) enc by simp
  also have "\<dots> = mset ?X" using fX fY by simp
  finally have mA: "mset ?A = mset ?X" .
  have "mset ?B = filter_mset (\<lambda>r. \<not> ?P r) (mset ts)" by simp
  also have "\<dots> = mset (filter (\<lambda>r. \<not> ?P r) (?X @ ?Y))" using Cons.prems(3) enc by simp
  also have "\<dots> = mset ?Y" using nX nY by simp
  finally have mB: "mset ?B = mset ?Y" .
  let ?us = "map UUID ?A"
  have "\<forall>r \<in> set ?A. r \<in> set ?X" using mA by (metis mset_eq_setD)
  then have "\<forall>r \<in> set ?A.
      \<lparr>Segment = [Start g, End g], UUID = UUID r, Locked = (if perm then 1 else 0)\<rparr> = r"
    by (auto simp: asRecords_def)
  then have Aform: "asRecords perm g ?us = ?A"
    unfolding asRecords_def map_map comp_def by (intro map_idI) simp
  have "mset ?us = image_mset UUID (mset ?A)" by (rule mset_map)
  also have "\<dots> = image_mset UUID (mset ?X)" by (simp only: mA)
  also have "\<dots> = mset (map UUID ?X)" by (rule mset_map[symmetric])
  also have "\<dots> = mset (UUIDs g)" by (simp only: asRecords_UUID)
  finally have mus: "mset ?us = mset (UUIDs g)" .
  with gu have usne: "?us \<noteq> []" by (metis mset_zero_iff)
  let ?g' = "\<lparr>Start = Start g, End = End g, UUIDs = rev ?us\<rparr>"
  from Cons.prems(4) have gapacc: "acc = [] \<or> gapMin \<le> Start g - End (last acc)" by auto
  have first: "fold combineStep ?A (acc, b) = (acc @ [?g'], b \<and> perm)"
    using combine_group[OF ge usne gapacc, of perm b] by (simp only: Aform)
  have sB: "sorted (map (\<lambda>r. Segment r ! 0) ?B)"
    using Cons.prems(2) by (rule sorted_filter)
  have next_gap: "acc @ [?g'] \<noteq> [] \<longrightarrow>
      (\<forall>h \<in> set segs. gapMin \<le> Start h - End (last (acc @ [?g'])))"
    using lt by (auto simp: algebra_simps)
  from Cons.IH[OF go sB mB next_gap, of "b \<and> perm"]
  obtain out where out: "fold combineStep ?B (acc @ [?g'], b \<and> perm) =
        ((acc @ [?g']) @ out, (b \<and> perm) \<and> (segs = [] \<or> perm))"
      "map Start out = map Start segs" "map End out = map End segs"
      "map (\<lambda>g. mset (UUIDs g)) out = map (\<lambda>g. mset (UUIDs g)) segs"
    by blast
  have "fold combineStep ts (acc, b) = fold combineStep ?B (fold combineStep ?A (acc, b))"
    by (subst split) simp
  also have "\<dots> = ((acc @ [?g']) @ out, (b \<and> perm) \<and> (segs = [] \<or> perm))"
    by (simp only: first out(1))
  finally have res: "fold combineStep ts (acc, b) =
      (acc @ (?g' # out), b \<and> (g # segs = [] \<or> perm))" by auto
  have "map Start (?g' # out) = map Start (g # segs)"
    and "map End (?g' # out) = map End (g # segs)"
    and "map (\<lambda>g. mset (UUIDs g)) (?g' # out) = map (\<lambda>g. mset (UUIDs g)) (g # segs)"
    using out(2-4) mus by simp_all
  with res show ?case by blast
qed

lemma combineStep_nonempty: "fst (combineStep s st) \<noteq> []"
  by (simp add: combineStep_def Let_def)

lemma combine_nonempty: "ts \<noteq> [] \<Longrightarrow> fst (fold combineStep ts st) \<noteq> []"
  by (induction ts arbitrary: st rule: rev_induct) (simp_all add: combineStep_nonempty)

lemma processSegmentsWith_reencode:
  assumes go: "gapOrdered segs"
    and sE: "isSortSlice (\<lambda>s. Segment s ! 1) sortEnd"
    and sS: "isSortSlice (\<lambda>s. Segment s ! 0) sortStart"
  shows "\<exists>out. processSegmentsWith sortEnd sortStart (Some (reencode perm segs)) =
             Some (out, segs = [] \<or> perm) \<and>
           map Start out = map Start segs \<and> map End out = map End segs \<and>
           map (\<lambda>g. mset (UUIDs g)) out = map (\<lambda>g. mset (UUIDs g)) segs"
proof -
  let ?ts = "reencode perm segs"
  let ?t1 = "sortEnd ?ts"
  let ?t3 = "sortStart ?t1"
  have len: "\<not> (\<exists>s \<in> set ?ts. length (Segment s) < 2)"
    using reencode_set by fastforce
  have set1: "set ?t1 = set ?ts" by (rule isSortSlice_set[OF sE])
  have set3: "set ?t3 = set ?ts" using isSortSlice_set[OF sS, of ?t1] set1 by simp
  have pair: "(Segment b ! 0 \<le> Segment a ! 1 \<and> Segment a ! 1 \<le> Segment b ! 1 \<longrightarrow>
               Segment b ! 1 = Segment a ! 1) \<and>
              (Segment b ! 0 \<le> Segment a ! 0 \<and> Segment a ! 0 \<le> Segment b ! 1 \<longrightarrow>
               Segment b ! 0 = Segment a ! 0)"
    if "a \<in> set ?ts" and "b \<in> set ?ts" for a b
  proof -
    from that obtain g h where g: "g \<in> set segs" "Segment a = [Start g, End g]"
      and h: "h \<in> set segs" "Segment b = [Start h, End h]"
      using reencode_set by blast
    from go g(1) h(1) have "Start g \<le> End g" and "Start h \<le> End h"
      by (simp_all add: gapOrdered_def)
    moreover from gapOrdered_pair[OF go g(1) h(1)]
    have "g = h \<or> End g + gapMin \<le> Start h \<or> End h + gapMin \<le> Start g" .
    ultimately show ?thesis using g(2) h(2) gapMin_pos by auto
  qed
  have extE: "extendEnds ?t1 = ?t1"
    by (rule extendEnds_id) (use pair set1 in blast)
  have extS: "extendStarts ?t3 = ?t3"
    by (rule extendStarts_id) (use pair set3 in blast)
  have m3: "mset ?t3 = mset ?ts" using sE sS by (simp add: isSortSlice_def)
  have s3: "sorted (map (\<lambda>r. Segment r ! 0) ?t3)" by (rule isSortSlice_sorted[OF sS])
  from combine_grouped[OF go s3 m3, of "[]" True]
  obtain out where out: "fold combineStep ?t3 ([], True) = ([] @ out, True \<and> (segs = [] \<or> perm))"
      "map Start out = map Start segs" "map End out = map End segs"
      "map (\<lambda>g. mset (UUIDs g)) out = map (\<lambda>g. mset (UUIDs g)) segs"
    by auto
  from out(1) have "combine ?t3 = (out, segs = [] \<or> perm)" by (simp add: combine_def)
  with len have "processSegmentsWith sortEnd sortStart (Some ?ts) = Some (out, segs = [] \<or> perm)"
    by (simp add: processSegmentsWith_def extE extS)
  with out(2-4) show ?thesis by blast
qed

text \<open>
  Claim C9, as the code has it. For well-formed input, and whatever order the sorts leave
  records with equal keys in, merging the output of a merge (written back as raw records)
  returns the same segments in the same order, with the same bounds, the same ids in each
  segment counted with multiplicity, and the same permanent flag. The order of the ids
  inside a segment is not part of what comes back the same.
\<close>

theorem processSegments_idempotent:
  assumes "\<forall>s \<in> set rs. wfRecord s"
    and "isSortSlice (\<lambda>s. Segment s ! 1) sortEnd"
    and "isSortSlice (\<lambda>s. Segment s ! 0) sortStart"
    and "processSegmentsWith sortEnd sortStart (Some rs) = Some (segs, perm)"
  shows "\<exists>segs'. processSegmentsWith sortEnd sortStart (Some (reencode perm segs)) =
             Some (segs', perm) \<and>
           map Start segs' = map Start segs \<and> map End segs' = map End segs \<and>
           map (\<lambda>g. mset (UUIDs g)) segs' = map (\<lambda>g. mset (UUIDs g)) segs"
proof -
  let ?ts = "extendStarts (sortStart (extendEnds (sortEnd rs)))"
  from assms(1) have "\<not> (\<exists>s \<in> set rs. length (Segment s) < 2)"
    by (auto simp: wfRecord_def)
  with assms(4) have c: "combine ?ts = (segs, perm)"
    by (simp add: processSegmentsWith_def)
  with pipeline_gapOrdered[OF assms(1-3)] have go: "gapOrdered segs" by simp
  have flag: "(segs = [] \<or> perm) = perm"
  proof (cases "segs = []")
    case True
    with c have "?ts = []" using combine_nonempty[of ?ts "([], True)"]
      by (auto simp: combine_def)
    with c have "perm" by (simp add: combine_def)
    then show ?thesis by simp
  next
    case False
    then show ?thesis by simp
  qed
  from processSegmentsWith_reencode[OF go assms(2,3), of perm] show ?thesis
    by (simp only: flag)
qed

theorem processSegments_idempotent_witness:
  "list_all wfRecord
     [\<lparr>Segment = [0, 10], UUID = ''a'', Locked = 0\<rparr>,
      \<lparr>Segment = [8, 20], UUID = ''b'', Locked = 1\<rparr>,
      \<lparr>Segment = [25, 30], UUID = ''c'', Locked = 1\<rparr>] \<and>
   isSortSlice (\<lambda>s. Segment s ! 1) sortByEnd \<and>
   isSortSlice (\<lambda>s. Segment s ! 0) sortByStart \<and>
   processSegments (Some
     [\<lparr>Segment = [0, 10], UUID = ''a'', Locked = 0\<rparr>,
      \<lparr>Segment = [8, 20], UUID = ''b'', Locked = 1\<rparr>,
      \<lparr>Segment = [25, 30], UUID = ''c'', Locked = 1\<rparr>])
     = Some ([\<lparr>Start = 0, End = 20, UUIDs = [''b'', ''a'']\<rparr>,
              \<lparr>Start = 25, End = 30, UUIDs = [''c'']\<rparr>], False) \<and>
   (\<exists>segs'. processSegments (Some (reencode False
        [\<lparr>Start = 0, End = 20, UUIDs = [''b'', ''a'']\<rparr>,
         \<lparr>Start = 25, End = 30, UUIDs = [''c'']\<rparr>])) = Some (segs', False) \<and>
      map Start segs' = [0, 25] \<and> map End segs' = [20, 30] \<and>
      map (\<lambda>g. mset (UUIDs g)) segs' = [{#''b'', ''a''#}, {#''c''#}])"
proof -
  let ?ex = "[\<lparr>Segment = [0, 10], UUID = ''a'', Locked = 0\<rparr>,
      \<lparr>Segment = [8, 20], UUID = ''b'', Locked = 1\<rparr>,
      \<lparr>Segment = [25, 30], UUID = ''c'', Locked = 1\<rparr>]"
  let ?out = "[\<lparr>Start = 0, End = 20, UUIDs = [''b'', ''a'']\<rparr>,
         \<lparr>Start = 25, End = 30, UUIDs = [''c'']\<rparr>]"
  have h: "\<forall>s \<in> set ?ex. wfRecord s" by (simp add: wfRecord_def)
  have h': "list_all wfRecord ?ex" by (simp add: wfRecord_def)
  have first: "processSegmentsWith sortByEnd sortByStart (Some ?ex) = Some (?out, False)"
    using processSegments_example by (simp only: processSegments_With)
  from processSegments_idempotent[OF h isSortSlice_sortByEnd isSortSlice_sortByStart first]
  obtain segs' where r:
    "processSegmentsWith sortByEnd sortByStart (Some (reencode False ?out)) = Some (segs', False)"
    "map Start segs' = map Start ?out" "map End segs' = map End ?out"
    "map (\<lambda>g. mset (UUIDs g)) segs' = map (\<lambda>g. mset (UUIDs g)) ?out"
    by blast
  from r(1) have p1: "processSegments (Some (reencode False ?out)) = Some (segs', False)"
    by (simp only: processSegments_With)
  from r(2-4) have p2: "map Start segs' = [0, 25]" and p3: "map End segs' = [20, 30]"
    and p4: "map (\<lambda>g. mset (UUIDs g)) segs' = [{#''b'', ''a''#}, {#''c''#}]" by simp_all
  have again: "\<exists>segs'. processSegments (Some (reencode False ?out)) = Some (segs', False) \<and>
      map Start segs' = [0, 25] \<and> map End segs' = [20, 30] \<and>
      map (\<lambda>g. mset (UUIDs g)) segs' = [{#''b'', ''a''#}, {#''c''#}]"
    by (rule exI[of _ segs'], rule conjI[OF p1 conjI[OF p2 conjI[OF p3 p4]]])
  show ?thesis
    by (rule conjI[OF h' conjI[OF isSortSlice_sortByEnd
          conjI[OF isSortSlice_sortByStart conjI[OF processSegments_example again]]]])
qed

text \<open>
  Claim C9, as stated, fails on the ids. The combining loop puts each new id in front of
  the ids collected so far, so the output of the specification's example, written back as
  raw records and merged again, comes back with the ids of its first segment in the
  opposite order: it is not the same output.
\<close>

theorem processSegments_remerge_reverses_ids:
  "processSegments (Some
     [\<lparr>Segment = [0, 10], UUID = ''a'', Locked = 0\<rparr>,
      \<lparr>Segment = [8, 20], UUID = ''b'', Locked = 1\<rparr>,
      \<lparr>Segment = [25, 30], UUID = ''c'', Locked = 1\<rparr>])
     = Some ([\<lparr>Start = 0, End = 20, UUIDs = [''b'', ''a'']\<rparr>,
              \<lparr>Start = 25, End = 30, UUIDs = [''c'']\<rparr>], False) \<and>
   reencode False [\<lparr>Start = 0, End = 20, UUIDs = [''b'', ''a'']\<rparr>,
                   \<lparr>Start = 25, End = 30, UUIDs = [''c'']\<rparr>]
     = [\<lparr>Segment = [0, 20], UUID = ''b'', Locked = 0\<rparr>,
        \<lparr>Segment = [0, 20], UUID = ''a'', Locked = 0\<rparr>,
        \<lparr>Segment = [25, 30], UUID = ''c'', Locked = 0\<rparr>] \<and>
   processSegments (Some (reencode False
        [\<lparr>Start = 0, End = 20, UUIDs = [''b'', ''a'']\<rparr>,
         \<lparr>Start = 25, End = 30, UUIDs = [''c'']\<rparr>]))
     = Some ([\<lparr>Start = 0, End = 20, UUIDs = [''a'', ''b'']\<rparr>,
              \<lparr>Start = 25, End = 30, UUIDs = [''c'']\<rparr>], False) \<and>
   processSegments (Some (reencode False
        [\<lparr>Start = 0, End = 20, UUIDs = [''b'', ''a'']\<rparr>,
         \<lparr>Start = 25, End = 30, UUIDs = [''c'']\<rparr>]))
     \<noteq> Some ([\<lparr>Start = 0, End = 20, UUIDs = [''b'', ''a'']\<rparr>,
              \<lparr>Start = 25, End = 30, UUIDs = [''c'']\<rparr>], False)"
proof -
  have enc: "reencode False [\<lparr>Start = 0, End = 20, UUIDs = [''b'', ''a'']\<rparr>,
                   \<lparr>Start = 25, End = 30, UUIDs = [''c'']\<rparr>]
     = [\<lparr>Segment = [0, 20], UUID = ''b'', Locked = 0\<rparr>,
        \<lparr>Segment = [0, 20], UUID = ''a'', Locked = 0\<rparr>,
        \<lparr>Segment = [25, 30], UUID = ''c'', Locked = 0\<rparr>]"
    by (simp add: reencode_def asRecords_def)
  have again: "processSegments (Some
        [\<lparr>Segment = [0, 20], UUID = ''b'', Locked = 0\<rparr>,
         \<lparr>Segment = [0, 20], UUID = ''a'', Locked = 0\<rparr>,
         \<lparr>Segment = [25, 30], UUID = ''c'', Locked = 0\<rparr>])
     = Some ([\<lparr>Start = 0, End = 20, UUIDs = [''a'', ''b'']\<rparr>,
              \<lparr>Start = 25, End = 30, UUIDs = [''c'']\<rparr>], False)"
    by (simp add: processSegments_def sortByEnd_def sortByStart_def extendEnds_def
        extendStarts_def extendEndStep_def extendStartStep_def combine_def combineStep_def upt3
        float64_diff_below_one_def gapMin_def)
  from processSegments_example enc again show ?thesis by simp
qed

section \<open>Properties of the skip scheduler\<close>

lemma nextSegment_selectionRule:
  "sorted (map Start segments) \<Longrightarrow> nextSegment segments position = selectionRule segments position"
proof (induction segments)
  case Nil
  then show ?case by (simp add: selectionRule_def)
next
  case (Cons s rest)
  then have IH: "nextSegment rest position = selectionRule rest position"
    and le: "\<forall>r \<in> set rest. Start s \<le> Start r" by simp_all
  consider (within) "position < 1" "spansOpening position s"
    | (beyond) "position < Start s"
    | (neither) "\<not> (position < 1 \<and> spansOpening position s)" "\<not> position < Start s"
    by blast
  then show ?case
  proof cases
    case within
    then show ?thesis
      by (auto simp: selectionRule_def spansOpening_def)
  next
    case beyond
    with le have "\<forall>r \<in> set (s # rest). \<not> spansOpening position r"
      by (fastforce simp: spansOpening_def)
    then have "\<not> list_ex (spansOpening position) (s # rest)"
      by (simp add: list_ex_iff)
    with beyond show ?thesis
      by (auto simp: selectionRule_def spansOpening_def)
  next
    case neither
    then have "nextSegment (s # rest) position = nextSegment rest position"
      by (auto simp: spansOpening_def)
    moreover from neither have "selectionRule (s # rest) position = selectionRule rest position"
      by (auto simp: selectionRule_def)
    ultimately show ?thesis using IH by simp
  qed
qed

text \<open>
  Claim C7. On a segment list in start order, timeToSegment selects its target by the rule
  of the specification: when the position is within the first second and a segment spans
  the opening window, that segment, with the target starting at the current position;
  otherwise the first segment whose start is strictly after the position, with the target
  starting at that segment's start; and when there is neither, nothing is scheduled.
\<close>

theorem timeToSegment_selection:
  assumes "sorted (map Start segments)"
  shows "nextSegment segments position = selectionRule segments position \<and>
         timeToSegment offset segments position elapsed =
           (case selectionRule segments position of
              None \<Rightarrow> []
            | Some (s, start) \<Rightarrow> skip ((start - position - elapsed) - offset) (End s) (UUIDs s))"
  using nextSegment_selectionRule[OF assms, of position]
  by (simp add: timeToSegment_def)

theorem timeToSegment_selection_witness:
  "sorted (map Start [\<lparr>Start = 0, End = 8, UUIDs = [''x'']\<rparr>, \<lparr>Start = 20, End = 30, UUIDs = [''y'']\<rparr>]) \<and>
   nextSegment [\<lparr>Start = 0, End = 8, UUIDs = [''x'']\<rparr>, \<lparr>Start = 20, End = 30, UUIDs = [''y'']\<rparr>] (1/2)
     = Some (\<lparr>Start = 0, End = 8, UUIDs = [''x'']\<rparr>, 1/2) \<and>
   timeToSegment 0 [\<lparr>Start = 0, End = 8, UUIDs = [''x'']\<rparr>, \<lparr>Start = 20, End = 30, UUIDs = [''y'']\<rparr>] (1/2) 0
     = skip 0 8 [''x''] \<and>
   nextSegment [\<lparr>Start = 0, End = 8, UUIDs = [''x'']\<rparr>, \<lparr>Start = 20, End = 30, UUIDs = [''y'']\<rparr>] 9
     = Some (\<lparr>Start = 20, End = 30, UUIDs = [''y'']\<rparr>, 20) \<and>
   timeToSegment 0 [\<lparr>Start = 0, End = 8, UUIDs = [''x'']\<rparr>, \<lparr>Start = 20, End = 30, UUIDs = [''y'']\<rparr>] 40 0 = []"
proof -
  let ?segs = "[\<lparr>Start = 0, End = 8, UUIDs = [''x'']\<rparr>, \<lparr>Start = 20, End = 30, UUIDs = [''y'']\<rparr>]"
  have h: "sorted (map Start ?segs)" by simp
  from h timeToSegment_selection[OF h, of "1/2" 0 0] timeToSegment_selection[OF h, of 9 0 0]
    timeToSegment_selection[OF h, of 40 0 0]
  show ?thesis by (simp add: selectionRule_def spansOpening_def)
qed

text \<open>
  The order matters: on a list that is not in start order the loop takes the first match
  in list order.
\<close>

lemma nextSegment_unsorted_example:
  "nextSegment [\<lparr>Start = 6/10, End = 5, UUIDs = [''x'']\<rparr>, \<lparr>Start = 2/10, End = 10, UUIDs = [''y'']\<rparr>] (1/2)
     = Some (\<lparr>Start = 6/10, End = 5, UUIDs = [''x'']\<rparr>, 6/10)"
  by simp

text \<open>
  Claim C1 asks that a skip that fires sends a seek to the segment's end to the device and
  reports the ids without waiting for the report. What skip does: it sleeps, logs
  "Skipping segment: seeking to ...", starts the report and waits for it. It sends no
  command to the device, and neither does timeToSegment around it; the last thing skip does
  is wait for the report to finish.
\<close>

theorem skip_sends_no_command:
  "skip timeTo position uuids =
     [Sleep timeTo, LogSkipping position, GoMarkViewedSegments uuids, WaitGroupWait] \<and>
   (\<forall>c. LoungeCommand c \<notin> set (skip timeTo position uuids)) \<and>
   (\<forall>c. LoungeCommand c \<notin> set (timeToSegment offset segments p elapsed)) \<and>
   timeToSegment 0 [\<lparr>Start = 5, End = 8, UUIDs = [''id1'']\<rparr>] 0 5 =
     [Sleep 0, LogSkipping 8, GoMarkViewedSegments [''id1''], WaitGroupWait]"
  by (auto simp: skip_def timeToSegment_def split: option.splits)

text \<open>
  Claim C6 asks that a new schedule cancels the pending one. HandlePlaybackStateChange
  cancels the context of the previous task, but the goroutine it starts is handed only the
  state and the time, and sleeps with \<^verbatim>\<open>time.Sleep\<close>: after two events one second apart
  (positions 0 and 1), on a video with a segment from 5 to 8, both skips are still to come,
  one sleeping 5 seconds from the first event and one sleeping 4 seconds from the second,
  although the first task's context is cancelled.
\<close>

theorem two_events_two_pending_skips:
  "pendingSkips 0 (\<lambda>v. [\<lparr>Start = 5, End = 8, UUIDs = [''id1'']\<rparr>]) 0
     (HandlePlaybackStateChange \<lparr>VideoID = ''v'', CurrentTime = 1, State = StatePlaying\<rparr> 1
       (HandlePlaybackStateChange \<lparr>VideoID = ''v'', CurrentTime = 0, State = StatePlaying\<rparr> 0
         \<lparr>task = None, cancelledTasks = [], createdTasks = 0, goroutines = []\<rparr>))
   = [skip 5 8 [''id1''], skip 4 8 [''id1'']] \<and>
   cancelledTasks
     (HandlePlaybackStateChange \<lparr>VideoID = ''v'', CurrentTime = 1, State = StatePlaying\<rparr> 1
       (HandlePlaybackStateChange \<lparr>VideoID = ''v'', CurrentTime = 0, State = StatePlaying\<rparr> 0
         \<lparr>task = None, cancelledTasks = [], createdTasks = 0, goroutines = []\<rparr>)) = [0] \<and>
   (\<forall>state now d. goroutines (HandlePlaybackStateChange state now d) = goroutines d @ [(state, now)])"
  by (simp add: pendingSkips_def HandlePlaybackStateChange_def processPlaybackState_def
      timeToSegment_def skip_def split: option.splits)

section \<open>The caches\<close>

text \<open>
  Claim C5 fails of both caches of the repository.

  Package cache, which its comments call an LRU cache and whose Get and Set move the
  element used to the front of the list: with capacity 2, "a" set at time 0, "b" set (to
  the string "a") at time 1 and "a" read (a hit, so "a" is the most recently used entry and
  "b" the least) at time 2, setting "c" at time 3 exceeds the capacity. evict takes "b"'s
  element off the list but deletes the map entry of the key named by "b"'s value, which is
  "a": afterwards "a", the entry just read, is a miss, and "b", the least recently used
  entry, is still served. With the same calls and "b" set to "y" nothing leaves the map:
  "a", "b" and "c" are all served by a cache of capacity 2. With values that are not
  strings, the first insert beyond the capacity panics.

  Package api's cache keeps no order of use: with capacity 2, "a" set at time 0, "b" set
  at time 1 and "a" read (a hit) at time 2, setting "c" at time 3 evicts "a" and keeps "b".
\<close>

theorem cache_evicts_recently_read_entry:
  "(let e_a = \<lparr>cache_value = JString ''x'', cache_expiration = Some 100\<rparr>;
        e_b = \<lparr>cache_value = JString ''a'', cache_expiration = Some 101\<rparr>;
        e_c = \<lparr>cache_value = JString ''z'', cache_expiration = Some 103\<rparr>;
        c1 = \<lparr>cache_capacity = 2, cache_ttl = 100, cache_items = [(''a'', 0)],
              cache_lruList = [0], cache_elements = [e_a]\<rparr>;
        c2 = \<lparr>cache_capacity = 2, cache_ttl = 100, cache_items = [(''a'', 0), (''b'', 1)],
              cache_lruList = [1, 0], cache_elements = [e_a, e_b]\<rparr>;
        c3 = \<lparr>cache_capacity = 2, cache_ttl = 100, cache_items = [(''a'', 0), (''b'', 1)],
              cache_lruList = [0, 1], cache_elements = [e_a, e_b]\<rparr>;
        c4 = \<lparr>cache_capacity = 2, cache_ttl = 100, cache_items = [(''b'', 1), (''c'', 2)],
              cache_lruList = [2, 0], cache_elements = [e_a, e_b, e_c]\<rparr>
    in cache_Set (cache_NewCache 2 100) ''a'' (JString ''x'') False 0 = Inr c1 \<and>
       cache_Set c1 ''b'' (JString ''a'') False 1 = Inr c2 \<and>
       cache_Get c2 ''a'' 2 = (c3, Some (JString ''x'')) \<and>
       cache_Set c3 ''c'' (JString ''z'') False 3 = Inr c4 \<and>
       cache_Get c4 ''a'' 4 = (c4, None) \<and>
       cache_Get c4 ''b'' 4 = (c4, Some (JString ''a''))) \<and>
   (let e_a = \<lparr>cache_value = JString ''x'', cache_expiration = Some 100\<rparr>;
        e_b = \<lparr>cache_value = JString ''y'', cache_expiration = Some 101\<rparr>;
        e_c = \<lparr>cache_value = JString ''z'', cache_expiration = Some 103\<rparr>;
        c2 = \<lparr>cache_capacity = 2, cache_ttl = 100, cache_items = [(''a'', 0), (''b'', 1)],
              cache_lruList = [1, 0], cache_elements = [e_a, e_b]\<rparr>;
        c3 = \<lparr>cache_capacity = 2, cache_ttl = 100, cache_items = [(''a'', 0), (''b'', 1)],
              cache_lruList = [0, 1], cache_elements = [e_a, e_b]\<rparr>;
        c4 = \<lparr>cache_capacity = 2, cache_ttl = 100,
              cache_items = [(''a'', 0), (''b'', 1), (''c'', 2)],
              cache_lruList = [2, 0], cache_elements = [e_a, e_b, e_c]\<rparr>
    in cache_Get c2 ''a'' 2 = (c3, Some (JString ''x'')) \<and>
       cache_Set c3 ''c'' (JString ''z'') False 3 = Inr c4 \<and>
       snd (cache_Get c4 ''a'' 4) = Some (JString ''x'') \<and>
       snd (cache_Get c4 ''b'' 4) = Some (JString ''y'') \<and>
       snd (cache_Get c4 ''c'' 4) = Some (JString ''z'')) \<and>
   (let c1 = \<lparr>cache_capacity = 1, cache_ttl = 100, cache_items = [(''a'', 0)],
              cache_lruList = [0],
              cache_elements = [\<lparr>cache_value = JNumber 1, cache_expiration = Some 100\<rparr>]\<rparr>
    in cache_Set (cache_NewCache 1 100) ''a'' (JNumber 1) False 0 = Inr c1 \<and>
       cache_Set c1 ''b'' (JNumber 2) False 1 = Inl TypeAssertionFailed) \<and>
   snd (Get (Set (Set (NewCache 2 100) ''a'' (1::nat) 0) ''b'' 2 1) ''a'' 2) = Some 1 \<and>
   map fst (entries (Set (fst (Get (Set (Set (NewCache 2 100) ''a'' (1::nat) 0) ''b'' 2 1) ''a'' 2))
                       ''c'' 3 3)) = [''b'', ''c'']"
proof -
  have lru: "(let e_a = \<lparr>cache_value = JString ''x'', cache_expiration = Some 100\<rparr>;
        e_b = \<lparr>cache_value = JString ''a'', cache_expiration = Some 101\<rparr>;
        e_c = \<lparr>cache_value = JString ''z'', cache_expiration = Some 103\<rparr>;
        c1 = \<lparr>cache_capacity = 2, cache_ttl = 100, cache_items = [(''a'', 0)],
              cache_lruList = [0], cache_elements = [e_a]\<rparr>;
        c2 = \<lparr>cache_capacity = 2, cache_ttl = 100, cache_items = [(''a'', 0), (''b'', 1)],
              cache_lruList = [1, 0], cache_elements = [e_a, e_b]\<rparr>;
        c3 = \<lparr>cache_capacity = 2, cache_ttl = 100, cache_items = [(''a'', 0), (''b'', 1)],
              cache_lruList = [0, 1], cache_elements = [e_a, e_b]\<rparr>;
        c4 = \<lparr>cache_capacity = 2, cache_ttl = 100, cache_items = [(''b'', 1), (''c'', 2)],
              cache_lruList = [2, 0], cache_elements = [e_a, e_b, e_c]\<rparr>
    in cache_Set (cache_NewCache 2 100) ''a'' (JString ''x'') False 0 = Inr c1 \<and>
       cache_Set c1 ''b'' (JString ''a'') False 1 = Inr c2 \<and>
       cache_Get c2 ''a'' 2 = (c3, Some (JString ''x'')) \<and>
       cache_Set c3 ''c'' (JString ''z'') False 3 = Inr c4 \<and>
       cache_Get c4 ''a'' 4 = (c4, None) \<and>
       cache_Get c4 ''b'' 4 = (c4, Some (JString ''a'')))"
    by (simp add: cache_NewCache_def cache_Set_def cache_Get_def cache_evict_def
        list_MoveToFront_def list_Remove_def delete_key_def Let_def)
  have leak: "(let e_a = \<lparr>cache_value = JString ''x'', cache_expiration = Some 100\<rparr>;
        e_b = \<lparr>cache_value = JString ''y'', cache_expiration = Some 101\<rparr>;
        e_c = \<lparr>cache_value = JString ''z'', cache_expiration = Some 103\<rparr>;
        c2 = \<lparr>cache_capacity = 2, cache_ttl = 100, cache_items = [(''a'', 0), (''b'', 1)],
              cache_lruList = [1, 0], cache_elements = [e_a, e_b]\<rparr>;
        c3 = \<lparr>cache_capacity = 2, cache_ttl = 100, cache_items = [(''a'', 0), (''b'', 1)],
              cache_lruList = [0, 1], cache_elements = [e_a, e_b]\<rparr>;
        c4 = \<lparr>cache_capacity = 2, cache_ttl = 100,
              cache_items = [(''a'', 0), (''b'', 1), (''c'', 2)],
              cache_lruList = [2, 0], cache_elements = [e_a, e_b, e_c]\<rparr>
    in cache_Get c2 ''a'' 2 = (c3, Some (JString ''x'')) \<and>
       cache_Set c3 ''c'' (JString ''z'') False 3 = Inr c4 \<and>
       snd (cache_Get c4 ''a'' 4) = Some (JString ''x'') \<and>
       snd (cache_Get c4 ''b'' 4) = Some (JString ''y'') \<and>
       snd (cache_Get c4 ''c'' 4) = Some (JString ''z''))"
    by (simp add: cache_Set_def cache_Get_def cache_evict_def
        list_MoveToFront_def list_Remove_def delete_key_def Let_def)
  have pan: "(let c1 = \<lparr>cache_capacity = 1, cache_ttl = 100, cache_items = [(''a'', 0)],
              cache_lruList = [0],
              cache_elements = [\<lparr>cache_value = JNumber 1, cache_expiration = Some 100\<rparr>]\<rparr>
    in cache_Set (cache_NewCache 1 100) ''a'' (JNumber 1) False 0 = Inr c1 \<and>
       cache_Set c1 ''b'' (JNumber 2) False 1 = Inl TypeAssertionFailed)"
    by (simp add: cache_NewCache_def cache_Set_def cache_evict_def Let_def)
  have api: "snd (Get (Set (Set (NewCache 2 100) ''a'' (1::nat) 0) ''b'' 2 1) ''a'' 2) = Some 1 \<and>
   map fst (entries (Set (fst (Get (Set (Set (NewCache 2 100) ''a'' (1::nat) 0) ''b'' 2 1) ''a'' 2))
                       ''c'' 3 3)) = [''b'', ''c'']"
    by (simp add: NewCache_def Set_def Get_def liveEntries_def oldestKey_def oldestStep_def
        delete_key_def Let_def)
  show ?thesis by (rule conjI[OF lru conjI[OF leak conjI[OF pan api]]])
qed

section \<open>Properties of the lounge session\<close>

lemma SubscribeMonitored_fresh:
  "SubscribeMonitored NewYtLoungeApi =
     \<lparr>volumeState = [], playbackSpeed = 1, subscribeTask = Some 0, watchdogTask = Some 1,
      callback = True, shortsDisconnected = False, autoPlay = False, muteAds = False,
      skipAds = False, cancelled = [], created = 2, subscriptions = [0], watchdogs = [(1, 0)]\<rparr>"
  by (simp add: SubscribeMonitored_def NewYtLoungeApi_def cancelIfSet_def Let_def)

lemma second_waiting:
  assumes "watchdogs y = [(w, k)]" and "w \<notin> set (cancelled y)" and "Suc k < 35"
  shows "second y = y\<lparr>watchdogs := [(w, Suc k)]\<rparr>"
  using assms by (simp add: second_def watchdog_def)

lemma seconds_waiting:
  assumes "watchdogs y = [(w, k)]" and "w \<notin> set (cancelled y)" and "k + n < 35"
  shows "(second ^^ n) y = y\<lparr>watchdogs := [(w, k + n)]\<rparr>"
  using assms
proof (induction n)
  case 0
  then show ?case by simp
next
  case (Suc n)
  then have "(second ^^ n) y = y\<lparr>watchdogs := [(w, k + n)]\<rparr>" by simp
  moreover have "second (y\<lparr>watchdogs := [(w, k + n)]\<rparr>) = y\<lparr>watchdogs := [(w, Suc (k + n))]\<rparr>"
    using Suc.prems by (simp add: second_def watchdog_def)
  ultimately show ?case by simp
qed

lemma second_fires:
  assumes "watchdogs y = [(w, 34)]" and "w \<notin> set (cancelled y)" and "subscribeTask y = Some c"
  shows "second y = y\<lparr>cancelled := c # cancelled y, subscribeTask := None, watchdogs := [(w, 0)]\<rparr>"
  using assms by (simp add: second_def watchdog_def cancel_def)

lemma silence_35:
  "(second ^^ 35) (SubscribeMonitored NewYtLoungeApi) =
     \<lparr>volumeState = [], playbackSpeed = 1, subscribeTask = None, watchdogTask = Some 1,
      callback = True, shortsDisconnected = False, autoPlay = False, muteAds = False,
      skipAds = False, cancelled = [0], created = 2, subscriptions = [0], watchdogs = [(1, 0)]\<rparr>"
  unfolding SubscribeMonitored_fresh
proof -
  let ?y = "\<lparr>volumeState = [], playbackSpeed = 1, subscribeTask = Some 0, watchdogTask = Some 1,
      callback = True, shortsDisconnected = False, autoPlay = False, muteAds = False,
      skipAds = False, cancelled = [], created = 2, subscriptions = [0], watchdogs = [(1, 0)]\<rparr>"
  have "(second ^^ 34) ?y = ?y\<lparr>watchdogs := [(1, 0 + 34)]\<rparr>"
    by (rule seconds_waiting) simp_all
  moreover have "(second ^^ 35) ?y = second ((second ^^ 34) ?y)"
    by (simp add: eval_nat_numeral)
  moreover have "second (?y\<lparr>watchdogs := [(1, 34)]\<rparr>) =
      (?y\<lparr>watchdogs := [(1, 34)]\<rparr>)\<lparr>cancelled := 0 # cancelled (?y\<lparr>watchdogs := [(1, 34)]\<rparr>),
          subscribeTask := None, watchdogs := [(1, 0)]\<rparr>"
    by (rule second_fires) simp_all
  ultimately show "(second ^^ 35) ?y =
     \<lparr>volumeState = [], playbackSpeed = 1, subscribeTask = None, watchdogTask = Some 1,
      callback = True, shortsDisconnected = False, autoPlay = False, muteAds = False,
      skipAds = False, cancelled = [0], created = 2, subscriptions = [0], watchdogs = [(1, 0)]\<rparr>"
    by simp
qed

lemma fold_watchdog_dead:
  assumes "\<forall>g \<in> set gs. fst g \<in> set (cancelled y)"
  shows "fold (\<lambda>g (st, acc). (fst (watchdog g st), acc @ snd (watchdog g st))) gs (y, acc0) = (y, acc0)"
  using assms by (induction gs arbitrary: acc0) (simp_all add: watchdog_def)

lemma second_dead:
  assumes "\<forall>g \<in> set (watchdogs y). fst g \<in> set (cancelled y)"
  shows "second y = y\<lparr>watchdogs := []\<rparr>"
  using fold_watchdog_dead[OF assms, of "[]"] by (simp add: second_def)

lemma seconds_dead:
  assumes "\<forall>g \<in> set (watchdogs y). fst g \<in> set (cancelled y)"
  shows "(second ^^ Suc n) y = y\<lparr>watchdogs := []\<rparr>"
proof (induction n)
  case 0
  then show ?case using second_dead[OF assms] by simp
next
  case (Suc n)
  have "second (y\<lparr>watchdogs := []\<rparr>) = y\<lparr>watchdogs := []\<rparr>"
    using second_dead[of "y\<lparr>watchdogs := []\<rparr>"] by simp
  with Suc show ?case by simp
qed

text \<open>
  Claim C3 asks that every event resets the 35 second watchdog and that a silent window
  tears the subscription down and makes exactly one fresh subscription attempt. In the code
  the "restart" in ProcessEvent is a call of the watchdog's cancel function: after one
  event the watchdog goroutine is gone, and however long the silence that follows, the
  subscription (context 0) is never cancelled and no further subscription is started. With
  no event at all the watchdog does fire after 35 seconds, cancels the subscription and
  sets the handle to nil, and starts no subscription either.
\<close>

theorem event_stops_watchdog:
  "ProcessEvent e ''onAutoplayModeChanged'' [] (SubscribeMonitored NewYtLoungeApi) =
     Inr ((SubscribeMonitored NewYtLoungeApi)\<lparr>cancelled := [1]\<rparr>,
          [GoSetAutoPlayMode False, Callback ''onAutoplayModeChanged'' []]) \<and>
   (\<forall>n. subscribeTask ((second ^^ n) ((SubscribeMonitored NewYtLoungeApi)\<lparr>cancelled := [1]\<rparr>)) = Some 0 \<and>
        cancelled ((second ^^ n) ((SubscribeMonitored NewYtLoungeApi)\<lparr>cancelled := [1]\<rparr>)) = [1] \<and>
        subscriptions ((second ^^ n) ((SubscribeMonitored NewYtLoungeApi)\<lparr>cancelled := [1]\<rparr>)) = [0]) \<and>
   subscribeTask ((second ^^ 35) (SubscribeMonitored NewYtLoungeApi)) = None \<and>
   cancelled ((second ^^ 35) (SubscribeMonitored NewYtLoungeApi)) = [0] \<and>
   subscriptions ((second ^^ 35) (SubscribeMonitored NewYtLoungeApi)) = [0]"
proof -
  let ?y1 = "SubscribeMonitored NewYtLoungeApi"
  let ?y = "?y1\<lparr>cancelled := [1]\<rparr>"
  have ev: "ProcessEvent e ''onAutoplayModeChanged'' [] ?y1 =
     Inr (?y, [GoSetAutoPlayMode False, Callback ''onAutoplayModeChanged'' []])"
    unfolding SubscribeMonitored_fresh
    by (simp add: ProcessEvent_def switch_def cancelIfSet_def cancel_def)
  have dead: "\<forall>g \<in> set (watchdogs ?y). fst g \<in> set (cancelled ?y)"
    unfolding SubscribeMonitored_fresh by simp
  have after: "subscribeTask ((second ^^ n) ?y) = Some 0 \<and> cancelled ((second ^^ n) ?y) = [1] \<and>
      subscriptions ((second ^^ n) ?y) = [0]" for n
  proof (cases n)
    case 0
    then show ?thesis unfolding SubscribeMonitored_fresh by simp
  next
    case (Suc m)
    have "(second ^^ Suc m) ?y = ?y\<lparr>watchdogs := []\<rparr>" by (rule seconds_dead[OF dead])
    with Suc show ?thesis unfolding SubscribeMonitored_fresh by simp
  qed
  have fire: "subscribeTask ((second ^^ 35) ?y1) = None \<and> cancelled ((second ^^ 35) ?y1) = [0] \<and>
      subscriptions ((second ^^ 35) ?y1) = [0]"
    by (simp add: silence_35)
  from ev after fire show ?thesis by blast
qed

text \<open>
  Claim C10. A "loungeStatus" event that lists a blacklisted client calls
  \<^verbatim>\<open>y.subscribeTask()\<close> unguarded: with the handle nil the call panics, with a handle it
  cancels the subscription and returns. The watchdog leaves the handle nil when it fires,
  so such an event processed after 35 silent seconds panics.
\<close>

theorem loungeStatus_blacklisted_nil_handle:
  assumes "lookup data ''devices'' = JString devices"
    and "decodeDevices e devices = Some devicesData"
    and "list_ex (blacklistedDevice e) devicesData"
  shows "(subscribeTask y = None \<longrightarrow>
            ProcessEvent e ''loungeStatus'' (JObject data # rest) y = Inl NilFuncCall) \<and>
         (\<forall>c. subscribeTask y = Some c \<longrightarrow>
            ProcessEvent e ''loungeStatus'' (JObject data # rest) y =
              Inr (cancel c (cancelIfSet (watchdogTask y) y), [])) \<and>
         subscribeTask ((second ^^ 35) (SubscribeMonitored NewYtLoungeApi)) = None \<and>
         ProcessEvent e ''loungeStatus'' (JObject data # rest)
             ((second ^^ 35) (SubscribeMonitored NewYtLoungeApi)) = Inl NilFuncCall"
proof -
  have sub: "subscribeTask (cancelIfSet t y') = subscribeTask y'" for t y'
    by (simp add: cancelIfSet_def cancel_def split: option.splits)
  have gen: "ProcessEvent e ''loungeStatus'' (JObject data # rest) y' =
      (case subscribeTask y' of None \<Rightarrow> Inl NilFuncCall
       | Some c \<Rightarrow> Inr (cancel c (cancelIfSet (watchdogTask y') y'), []))" for y'
    using assms
    by (simp add: ProcessEvent_def switch_def firstObject_def loungeStatus_def sub
        split: option.splits)
  have none: "subscribeTask ((second ^^ 35) (SubscribeMonitored NewYtLoungeApi)) = None"
    by (simp add: silence_35)
  show ?thesis
    using gen[of y] gen[of "(second ^^ 35) (SubscribeMonitored NewYtLoungeApi)"] none
    by simp
qed


theorem loungeStatus_blacklisted_nil_handle_witness:
  "list_ex (blacklistedDevice
       \<lparr>decodeDevices = (\<lambda>s. if s = ''D'' then Some [[(''type'', JString ''LOUNGE_SCREEN''),
                                                       (''deviceInfo'', JString ''I'')]] else None),
        decodeInfo = (\<lambda>s. if s = ''I'' then Some [(''clientName'', JString ''TVHTML5_FOR_KIDS'')] else None),
        parseFloat = (\<lambda>s. None),
        YouTubeClientBlacklist = [''TVHTML5_FOR_KIDS'']\<rparr>)
     [[(''type'', JString ''LOUNGE_SCREEN''), (''deviceInfo'', JString ''I'')]] \<and>
   ProcessEvent
       \<lparr>decodeDevices = (\<lambda>s. if s = ''D'' then Some [[(''type'', JString ''LOUNGE_SCREEN''),
                                                       (''deviceInfo'', JString ''I'')]] else None),
        decodeInfo = (\<lambda>s. if s = ''I'' then Some [(''clientName'', JString ''TVHTML5_FOR_KIDS'')] else None),
        parseFloat = (\<lambda>s. None),
        YouTubeClientBlacklist = [''TVHTML5_FOR_KIDS'']\<rparr>
       ''loungeStatus'' [JObject [(''devices'', JString ''D'')]]
       ((second ^^ 35) (SubscribeMonitored NewYtLoungeApi)) = Inl NilFuncCall \<and>
   ProcessEvent
       \<lparr>decodeDevices = (\<lambda>s. if s = ''D'' then Some [[(''type'', JString ''LOUNGE_SCREEN''),
                                                       (''deviceInfo'', JString ''I'')]] else None),
        decodeInfo = (\<lambda>s. if s = ''I'' then Some [(''clientName'', JString ''TVHTML5_FOR_KIDS'')] else None),
        parseFloat = (\<lambda>s. None),
        YouTubeClientBlacklist = [''TVHTML5_FOR_KIDS'']\<rparr>
       ''loungeStatus'' [JObject [(''devices'', JString ''D'')]] NewYtLoungeApi = Inl NilFuncCall"
proof -
  let ?e = "\<lparr>decodeDevices = (\<lambda>s. if s = ''D'' then Some [[(''type'', JString ''LOUNGE_SCREEN''),
                                                       (''deviceInfo'', JString ''I'')]] else None),
        decodeInfo = (\<lambda>s. if s = ''I'' then Some [(''clientName'', JString ''TVHTML5_FOR_KIDS'')] else None),
        parseFloat = (\<lambda>s. None),
        YouTubeClientBlacklist = [''TVHTML5_FOR_KIDS'']\<rparr>"
  let ?ds = "[[(''type'', JString ''LOUNGE_SCREEN''), (''deviceInfo'', JString ''I'')]]"
  have h1: "lookup [(''devices'', JString ''D'')] ''devices'' = JString ''D''"
    by (simp add: lookup_def)
  have h2: "decodeDevices ?e ''D'' = Some ?ds" by simp
  have h3: "list_ex (blacklistedDevice ?e) ?ds"
    by (simp add: blacklistedDevice_def lookup_def)
  have h4: "subscribeTask NewYtLoungeApi = None" by (simp add: NewYtLoungeApi_def)
  from loungeStatus_blacklisted_nil_handle[OF h1 h2 h3, of NewYtLoungeApi "[]"] h3 h4
  show ?thesis by simp
qed

text \<open>
  Claim C4 asks that a malformed event is ignored and never fatal. Six cases of ProcessEvent
  index \<^verbatim>\<open>args[0]\<close> without checking the length and panic on an empty argument list;
  "onVolumeChanged" asserts the type of \<^verbatim>\<open>args[0]\<close> without the comma-ok form and panics
  on a payload that is not a map; the listener's handleEvent panics on an empty list and on
  a payload without a string "videoId".
\<close>

theorem ProcessEvent_empty_args_panics:
  "ProcessEvent e ''onStateChange'' [] y = Inl IndexOutOfRange \<and>
   ProcessEvent e ''nowPlaying'' [] y = Inl IndexOutOfRange \<and>
   ProcessEvent e ''onAdStateChange'' [] y = Inl IndexOutOfRange \<and>
   ProcessEvent e ''adPlaying'' [] y = Inl IndexOutOfRange \<and>
   ProcessEvent e ''loungeStatus'' [] y = Inl IndexOutOfRange \<and>
   ProcessEvent e ''onPlaybackSpeedChanged'' [] y = Inl IndexOutOfRange \<and>
   ProcessEvent e ''onVolumeChanged'' [JString ''50''] y = Inl TypeAssertionFailed \<and>
   handleEvent ''onStateChange'' [] now d = Inl IndexOutOfRange \<and>
   handleEvent ''onStateChange'' [JObject []] now d = Inl TypeAssertionFailed"
  by (simp add: ProcessEvent_def switch_def firstObject_def handleEvent_def lookup_def)

text \<open>The sibling cases that do check the length ignore the same input.\<close>

lemma ProcessEvent_checked_siblings:
  "\<exists>y' acts. ProcessEvent e ''autoplayUpNext'' [] y = Inr (y', acts)"
  "\<exists>y' acts. ProcessEvent e ''loungeScreenDisconnected'' [] y = Inr (y', acts)"
  by (simp_all add: ProcessEvent_def switch_def checkedFirstObject_def)

end
